theory Spec2Isabelle
  imports Main "HOL-Library.Word"
begin

unbundle bit_operations_syntax

section \<open>Data model of the zsync core job\<close>

text \<open>
  The development follows \<^verbatim>\<open>src/src/ZsyncCoreJob_p.cc\<close>. Bytes are \<open>8 word\<close>, the
  two halves of the rolling checksum are \<open>unsigned short\<close>, that is \<open>16 word\<close>, and the
  C type \<open>int\<close> of intermediate results is \<open>32 word\<close>. Counts and sizes are natural
  numbers; block ids (\<open>zs_blockid\<close>) are integers, since the code compares them with
  \<open>x - 1\<close> and returns \<open>-1\<close> as a marker.
\<close>

type_synonym byte = "8 word"
type_synonym ushort = "16 word"

record rsum =
  rs_a :: ushort
  rs_b :: ushort

subsection \<open>Rolling checksum\<close>

text \<open>
  \<open>calc_rsum_block(data, len)\<close>: the argument list is the window of \<open>len\<close> bytes that
  \<open>data\<close> points to; \<open>len\<close> is the number of bytes still to be read, so it is the
  length of the remaining list. The product \<open>len * c\<close> is computed in \<open>size_t\<close> and
  the sum is cut to 16 bits by the assignment to \<open>b\<close>; cutting is a ring homomorphism,
  so the product is taken in \<open>16 word\<close>.
\<close>

fun calc_rsum_loop :: "byte list \<Rightarrow> ushort \<Rightarrow> ushort \<Rightarrow> rsum" where
  "calc_rsum_loop [] a b = \<lparr>rs_a = a, rs_b = b\<rparr>"
| "calc_rsum_loop (c # data) a b =
     calc_rsum_loop data (a + ucast c) (b + of_nat (length (c # data)) * ucast c)"

definition calc_rsum_block :: "byte list \<Rightarrow> rsum" where
  "calc_rsum_block data = calc_rsum_loop data 0 0"

text \<open>
  The macro \<open>UPDATE_RSUM(a, b, oldc, newc, bshift)\<close>. Both compound assignments
  compute in \<open>int\<close> (the operands are promoted) and cut the result to
  \<open>unsigned short\<close>; the second one reads the new value of \<open>a\<close>.
\<close>

definition UPDATE_RSUM :: "rsum \<Rightarrow> byte \<Rightarrow> byte \<Rightarrow> nat \<Rightarrow> rsum" where
  "UPDATE_RSUM r oldc newc bshift =
     (let a' = (ucast ((ucast (rs_a r) :: 32 word) + (ucast newc - ucast oldc)) :: ushort);
          b' = (ucast ((ucast (rs_b r) :: 32 word)
                  + ((ucast a' :: 32 word) - push_bit bshift (ucast oldc :: 32 word))) :: ushort)
      in \<lparr>rs_a = a', rs_b = b'\<rparr>)"

text \<open>
  The constructor's \<open>_nBlockShift\<close>: 10 and 11 for the two usual block sizes, otherwise
  \<open>log2(blockSize)\<close> converted to an integer, which is the integer part of the binary
  logarithm for the positive 32-bit values a block size can take.
\<close>

fun ilog2 :: "nat \<Rightarrow> nat" where
  "ilog2 n = (if n < 2 then 0 else Suc (ilog2 (n div 2)))"

declare ilog2.simps [simp del]

definition block_shift_of :: "nat \<Rightarrow> nat" where
  "block_shift_of bs = (if bs = 1024 then 10 else if bs = 2048 then 11 else ilog2 bs)"

text \<open>The window of \<open>n\<close> bytes at position \<open>p\<close> of a buffer (\<open>data + p\<close>, length \<open>n\<close>).\<close>

definition window :: "byte list \<Rightarrow> nat \<Rightarrow> nat \<Rightarrow> byte list" where
  "window buf p n = take n (drop p buf)"

text \<open>
  Sliding the sum of the first window of a buffer forward byte by byte, as the scanner
  does: \<open>slide_from buf bs sh p r k\<close> applies \<open>k\<close> updates starting at position \<open>p\<close>.
\<close>

fun slide_from :: "byte list \<Rightarrow> nat \<Rightarrow> nat \<Rightarrow> nat \<Rightarrow> rsum \<Rightarrow> nat \<Rightarrow> rsum" where
  "slide_from buf bs sh p r 0 = r"
| "slide_from buf bs sh p r (Suc k) =
     slide_from buf bs sh (Suc p) (UPDATE_RSUM r (buf ! p) (buf ! (p + bs)) sh) k"

subsection \<open>Strong checksum\<close>

text \<open>
  \<open>calcMd4Checksum\<close> hands the block to Qt's \<open>QCryptographicHash\<close> with
  \<open>QCryptographicHash::Md4\<close>, which is not code of this repository. The digest is MD4
  as RFC 1320 defines it, written out here so that the checksums of concrete blocks can be
  computed: padding to 56 modulo 64 bytes, the bit length in 64 bits, three rounds of
  sixteen steps on little-endian 32-bit words.
\<close>

definition md4_F :: "32 word \<Rightarrow> 32 word \<Rightarrow> 32 word \<Rightarrow> 32 word" where
  "md4_F x y z = (x AND y) OR (NOT x AND z)"

definition md4_G :: "32 word \<Rightarrow> 32 word \<Rightarrow> 32 word \<Rightarrow> 32 word" where
  "md4_G x y z = (x AND y) OR (x AND z) OR (y AND z)"

definition md4_H :: "32 word \<Rightarrow> 32 word \<Rightarrow> 32 word \<Rightarrow> 32 word" where
  "md4_H x y z = x XOR y XOR z"

type_synonym md4_regs = "32 word \<times> 32 word \<times> 32 word \<times> 32 word"

fun md4_step ::
  "(32 word \<Rightarrow> 32 word \<Rightarrow> 32 word \<Rightarrow> 32 word) \<Rightarrow> 32 word \<Rightarrow> 32 word list
     \<Rightarrow> nat \<times> nat \<Rightarrow> md4_regs \<Rightarrow> md4_regs" where
  "md4_step f cst X (k, s) (a, b, c, d) = (d, word_rotl s (a + f b c d + X ! k + cst), b, c)"

definition md4_round1 :: "(nat \<times> nat) list" where
  "md4_round1 = [(0,3),(1,7),(2,11),(3,19),(4,3),(5,7),(6,11),(7,19),
                 (8,3),(9,7),(10,11),(11,19),(12,3),(13,7),(14,11),(15,19)]"

definition md4_round2 :: "(nat \<times> nat) list" where
  "md4_round2 = [(0,3),(4,5),(8,9),(12,13),(1,3),(5,5),(9,9),(13,13),
                 (2,3),(6,5),(10,9),(14,13),(3,3),(7,5),(11,9),(15,13)]"

definition md4_round3 :: "(nat \<times> nat) list" where
  "md4_round3 = [(0,3),(8,9),(4,11),(12,15),(2,3),(10,9),(6,11),(14,15),
                 (1,3),(9,9),(5,11),(13,15),(3,3),(11,9),(7,11),(15,15)]"

definition md4_le32 :: "byte list \<Rightarrow> 32 word" where
  "md4_le32 bs = ucast (bs ! 0) OR push_bit 8 (ucast (bs ! 1))
                  OR push_bit 16 (ucast (bs ! 2)) OR push_bit 24 (ucast (bs ! 3))"

definition md4_bytes32 :: "32 word \<Rightarrow> byte list" where
  "md4_bytes32 w = [ucast w, ucast (drop_bit 8 w), ucast (drop_bit 16 w), ucast (drop_bit 24 w)]"

definition md4_words :: "byte list \<Rightarrow> 32 word list" where
  "md4_words chunk = map (\<lambda>i. md4_le32 (take 4 (drop (4 * i) chunk))) [0..<16]"

definition md4_chunk :: "md4_regs \<Rightarrow> byte list \<Rightarrow> md4_regs" where
  "md4_chunk st chunk =
     (let X = md4_words chunk;
          s1 = fold (md4_step md4_F 0 X) md4_round1 st;
          s2 = fold (md4_step md4_G 0x5A827999 X) md4_round2 s1;
          s3 = fold (md4_step md4_H 0x6ED9EBA1 X) md4_round3 s2
      in (case st of (a, b, c, d) \<Rightarrow> case s3 of (a', b', c', d') \<Rightarrow>
            (a + a', b + b', c + c', d + d')))"

definition md4_pad :: "byte list \<Rightarrow> byte list" where
  "md4_pad m =
     m @ [0x80] @ replicate ((119 - length m mod 64) mod 64) 0
       @ map (\<lambda>i. of_nat ((8 * length m) div 2 ^ (8 * i))) [0..<8]"

fun md4_chunks :: "nat \<Rightarrow> md4_regs \<Rightarrow> byte list \<Rightarrow> md4_regs" where
  "md4_chunks 0 st m = st"
| "md4_chunks (Suc n) st m = md4_chunks n (md4_chunk st (take 64 m)) (drop 64 m)"

definition md4 :: "byte list \<Rightarrow> byte list" where
  "md4 m =
     (let p = md4_pad m
      in case md4_chunks (length p div 64) (0x67452301, 0xEFCDAB89, 0x98BADCFE, 0x10325476) p
         of (a, b, c, d) \<Rightarrow> md4_bytes32 a @ md4_bytes32 b @ md4_bytes32 c @ md4_bytes32 d)"

subsection \<open>Job information, files and the state of a job\<close>

text \<open>
  Modelled from the spec: the header \<^verbatim>\<open>ZsyncCoreJob_p.hpp\<close> that declares
  \<open>CHECKSUM_SIZE\<close> and \<open>BITHASHBITS\<close> is not among the sources; the spec gives the
  checksum field 16 bytes and \<open>BITHASHBITS = 3\<close>.
\<close>

definition CHECKSUM_SIZE :: nat where
  "CHECKSUM_SIZE = 16"

definition BITHASHBITS :: nat where
  "BITHASHBITS = 3"

text \<open>
  The error codes the code returns (\<open>0\<close> is \<open>NO_ERROR\<close>); the driver tests them
  against zero.
\<close>

datatype error_code =
    NO_ERROR
  | HASH_TABLE_NOT_ALLOCATED
  | INVALID_TARGET_FILE_CHECKSUM_BLOCKS
  | CANNOT_OPEN_TARGET_FILE_CHECKSUM_BLOCKS
  | QBUFFER_IO_READ_ERROR
  | SOURCE_FILE_NOT_FOUND
  | NO_PERMISSION_TO_READ_SOURCE_FILE
  | CANNOT_OPEN_SOURCE_FILE

text \<open>
  An entry of \<open>_pBlockHashes\<close>. A pointer to an entry is its index in the array
  (\<open>getHashEntryBlockId\<close> subtracts the base address), a null pointer is \<open>None\<close>.
\<close>

record hash_entry =
  he_next :: "nat option"
  he_r :: rsum
  he_checksum :: "byte list"

text \<open>
  The \<open>QBuffer\<close> with the checksum blocks of the control file: its bytes, and whether
  \<open>open(QIODevice::ReadOnly)\<close> succeeds on it.
\<close>

record qbuffer =
  qb_bytes :: "byte list"
  qb_opens :: bool

text \<open>
  What the file system holds at the seed file's path: whether the file exists, whether one
  of the three read permissions is set, whether opening succeeds, and the bytes.
\<close>

record seed_file =
  sf_exists :: bool
  sf_readable :: bool
  sf_opens :: bool
  sf_bytes :: "byte list"

text \<open>
  The target \<open>QFile\<close>: its bytes and its position. \<open>qf_writes\<close> is the history of the
  \<open>write\<close> calls made on it, each with the offset it wrote at and the bytes it wrote.
\<close>

record qfile =
  qf_bytes :: "byte list"
  qf_pos :: nat
  qf_writes :: "(nat \<times> byte list) list"

record Information =
  blockSize :: nat
  blockIdOffset :: int
  blocks :: nat
  weakCheckSumBytes :: nat
  strongCheckSumBytes :: nat
  seqMatches :: nat
  targetFile :: qfile
  checkSumBlocks :: "qbuffer option"
  seedFilePath :: seed_file

text \<open>The members the constructor computes from the information; they never change.\<close>

record job =
  nBlockSize :: nat
  nBlockIdOffset :: int
  nBlocks :: nat
  pWeakCheckSumMask :: ushort
  nWeakCheckSumBytes :: nat
  nStrongCheckSumBytes :: nat
  nSeqMatches :: nat
  nContext :: nat
  nBlockShift :: nat
  pTargetFileCheckSumBlocks :: "qbuffer option"
  sSeedFilePath :: seed_file

text \<open>
  The members that change while the job runs. Memory allocation is taken to succeed, so a
  null array pointer (\<open>_pRsumHash\<close>, \<open>_pBitHash\<close>, \<open>_pRanges\<close>) is the empty list
  and an allocated array is never empty.
\<close>

record zs_state =
  pBlockHashes :: "hash_entry list"
  pRsumHash :: "nat option list"
  pBitHash :: "byte list"
  pHashMask :: "32 word"
  pBitHashMask :: "32 word"
  pRanges :: "int list"
  nRanges :: nat
  pNextMatch :: "nat option"
  nNextKnown :: int
  pRover :: "nat option"
  nSkip :: nat
  pCurrentWeakCheckSums :: "rsum \<times> rsum"
  pTargetFile :: qfile

definition zero_rsum :: rsum where
  "zero_rsum = \<lparr>rs_a = 0, rs_b = 0\<rparr>"

definition zero_entry :: hash_entry where
  "zero_entry = \<lparr>he_next = None, he_r = zero_rsum, he_checksum = replicate CHECKSUM_SIZE 0\<rparr>"

text \<open>The constructor: the fixed members.\<close>

definition job_of :: "Information \<Rightarrow> job" where
  "job_of info =
     \<lparr>nBlockSize = blockSize info,
      nBlockIdOffset = blockIdOffset info,
      nBlocks = blocks info,
      pWeakCheckSumMask =
        (if weakCheckSumBytes info < 3 then 0
         else if weakCheckSumBytes info = 3 then 0xff else 0xffff),
      nWeakCheckSumBytes = weakCheckSumBytes info,
      nStrongCheckSumBytes = strongCheckSumBytes info,
      nSeqMatches = seqMatches info,
      nContext = blockSize info * seqMatches info,
      nBlockShift = block_shift_of (blockSize info),
      pTargetFileCheckSumBlocks = checkSumBlocks info,
      sSeedFilePath = seedFilePath info\<rparr>"

text \<open>
  The constructor: the members that change. \<open>calloc\<close> gives \<open>blocks + seqMatches\<close>
  zero entries. The members the constructor does not set are declared in the header, which
  is not among the sources; they start as null pointers and zeros, which the code relies on
  (\<open>submitSourceFile\<close> tests \<open>_pRsumHash\<close>, \<open>addToRanges\<close> hands \<open>_pRanges\<close> to
  \<open>realloc\<close>).
\<close>

definition init_state :: "Information \<Rightarrow> zs_state" where
  "init_state info =
     \<lparr>pBlockHashes = replicate (blocks info + seqMatches info) zero_entry,
      pRsumHash = [],
      pBitHash = [],
      pHashMask = 0,
      pBitHashMask = 0,
      pRanges = [],
      nRanges = 0,
      pNextMatch = None,
      nNextKnown = 0,
      pRover = None,
      nSkip = 0,
      pCurrentWeakCheckSums = (zero_rsum, zero_rsum),
      pTargetFile = targetFile info\<rparr>"

subsection \<open>Parsing the checksum blocks\<close>

text \<open>
  \<open>QIODevice::read(p, n)\<close> on the buffer at position \<open>pos\<close>: the bytes read (at most
  \<open>n\<close>, fewer at the end of the buffer) and the new position. The call returns the number
  of bytes read, so the test \<open>read(...) < 1\<close> of the code is true when no byte is read.
\<close>

definition qb_read :: "byte list \<Rightarrow> nat \<Rightarrow> nat \<Rightarrow> byte list \<times> nat" where
  "qb_read bytes pos n = (let got = take n (drop pos bytes) in (got, pos + length got))"

text \<open>
  The four bytes of the local \<open>rsum r = {0, 0}\<close> after the read of \<open>wb\<close> bytes to
  \<open>((char *)&r) + 4 - wb\<close> that delivered the bytes \<open>w\<close>: the bytes land at the end of the
  struct and the rest stays zero. (With \<open>wb > 4\<close> the read starts before the struct, which
  C leaves undefined; the model keeps the bytes that land in the struct.)
\<close>

definition rsum_field :: "nat \<Rightarrow> byte list \<Rightarrow> byte list" where
  "rsum_field wb w = take 4 (drop (wb - 4) (replicate (4 - wb) 0 @ w) @ replicate 4 0)"

text \<open>
  \<open>qFromBigEndian\<close> on a little-endian host, nothing on a big-endian one: either way the
  field is the big-endian value of its two bytes in memory.
\<close>

definition be16 :: "byte \<Rightarrow> byte \<Rightarrow> ushort" where
  "be16 hi lo = push_bit 8 (ucast hi) OR ucast lo"

text \<open>
  The loop over the block ids. The local \<open>checksum[16]\<close> is not initialised; the bytes of
  it that a short read does not fill are modelled as zero.
\<close>

fun parse_blocks ::
  "job \<Rightarrow> byte list \<Rightarrow> nat list \<Rightarrow> nat \<Rightarrow> hash_entry list \<Rightarrow> error_code \<times> hash_entry list" where
  "parse_blocks j bytes [] pos bh = (NO_ERROR, bh)"
| "parse_blocks j bytes (i # ids) pos bh =
     (case qb_read bytes pos (nWeakCheckSumBytes j) of (w, pos1) \<Rightarrow>
        if length w < 1 then (QBUFFER_IO_READ_ERROR, bh)
        else case qb_read bytes pos1 (nStrongCheckSumBytes j) of (c, pos2) \<Rightarrow>
          if length c < 1 then (QBUFFER_IO_READ_ERROR, bh)
          else
            let mem = rsum_field (nWeakCheckSumBytes j) w;
                r_a = be16 (mem ! 0) (mem ! 1);
                r_b = be16 (mem ! 2) (mem ! 3);
                checksum = c @ replicate (nStrongCheckSumBytes j - length c) 0;
                e = bh ! i;
                e' = e\<lparr>he_checksum := checksum @ drop (nStrongCheckSumBytes j) (he_checksum e),
                       he_r := \<lparr>rs_a = r_a AND pWeakCheckSumMask j, rs_b = r_b\<rparr>\<rparr>
            in parse_blocks j bytes ids pos2 (bh[i := e']))"

text \<open>
  \<open>parseTargetFileCheckSumBlocks\<close>. The first test of the source,
  \<open>!_pBlockHashes\<close> with \<open>HASH_TABLE_NOT_ALLOCATED\<close>, is false since \<open>calloc\<close>
  succeeded.
\<close>

definition parseTargetFileCheckSumBlocks :: "job \<Rightarrow> zs_state \<Rightarrow> error_code \<times> zs_state" where
  "parseTargetFileCheckSumBlocks j st =
     (case pTargetFileCheckSumBlocks j of
        None \<Rightarrow> (INVALID_TARGET_FILE_CHECKSUM_BLOCKS, st)
      | Some qb \<Rightarrow>
          if length (qb_bytes qb) < nWeakCheckSumBytes j + nStrongCheckSumBytes j
          then (INVALID_TARGET_FILE_CHECKSUM_BLOCKS, st)
          else if \<not> qb_opens qb then (CANNOT_OPEN_TARGET_FILE_CHECKSUM_BLOCKS, st)
          else
            case parse_blocks j (qb_bytes qb) [0..<nBlocks j] 0 (pBlockHashes st) of (err, bh) \<Rightarrow>
              if err \<noteq> NO_ERROR then (err, st\<lparr>pBlockHashes := bh\<rparr>)
              else if pRsumHash st \<noteq> []
                then (NO_ERROR, st\<lparr>pBlockHashes := bh, pRsumHash := [], pBitHash := []\<rparr>)
                else (NO_ERROR, st\<lparr>pBlockHashes := bh\<rparr>))"

subsection \<open>The rsum hash table and the bit table\<close>

text \<open>
  \<open>calcRHash(e)\<close> for the entry with index \<open>i\<close>; \<open>e[1]\<close> is the entry after it. The
  operands of the shift are promoted to \<open>int\<close>, the result is \<open>unsigned\<close>.
\<close>

definition calcRHash :: "job \<Rightarrow> hash_entry list \<Rightarrow> nat \<Rightarrow> 32 word" where
  "calcRHash j bh i =
     (let h = (ucast (rs_b (he_r (bh ! i))) :: 32 word)
      in h XOR push_bit BITHASHBITS
           (if nSeqMatches j > 1 then ucast (rs_b (he_r (bh ! (i + 1))))
            else ucast (rs_a (he_r (bh ! i)) AND pWeakCheckSumMask j)))"

text \<open>The first loop of \<open>buildHash\<close>, started with \<open>i = 16\<close>.\<close>

fun hash_exponent :: "nat \<Rightarrow> nat \<Rightarrow> nat" where
  "hash_exponent i nblocks =
     (if push_bit (i - 1) (2::nat) > nblocks \<and> i > 4 then hash_exponent (i - 1) nblocks else i)"

declare hash_exponent.simps [simp del]

text \<open>
  The second loop of \<open>buildHash\<close>, over the ids from \<open>nBlocks - 1\<close> down to 0: the entry
  is put in front of the chain of its bucket and its bit is set in the bit table.
\<close>

fun build_fill ::
  "job \<Rightarrow> 32 word \<Rightarrow> 32 word \<Rightarrow> nat list
     \<Rightarrow> hash_entry list \<times> nat option list \<times> byte list
     \<Rightarrow> hash_entry list \<times> nat option list \<times> byte list" where
  "build_fill j hm bm [] acc = acc"
| "build_fill j hm bm (i # ids) (bh, tab, bits) =
     (let h = calcRHash j bh i;
          k = unat (h AND hm);
          bh' = bh[i := (bh ! i)\<lparr>he_next := tab ! k\<rparr>];
          tab' = tab[k := Some i];
          b = unat (drop_bit 3 (h AND bm));
          bits' = bits[b := (bits ! b) OR ucast (push_bit (unat (h AND 7)) (1 :: 32 word))]
      in build_fill j hm bm ids (bh', tab', bits'))"

text \<open>
  \<open>buildHash\<close>; both \<open>calloc\<close> calls succeed, so the result is 1. The bit table gets
  \<open>_pBitHashMask + 1\<close> bytes.
\<close>

definition buildHash :: "job \<Rightarrow> zs_state \<Rightarrow> nat \<times> zs_state" where
  "buildHash j st =
     (let i = hash_exponent 16 (nBlocks j);
          hm = (push_bit i 2 - 1 :: 32 word);
          tab = replicate (unat hm + 1) None;
          bm = (push_bit (i + BITHASHBITS) 2 - 1 :: 32 word);
          bits = replicate (unat bm + 1) 0
      in case build_fill j hm bm (rev [0..<nBlocks j]) (pBlockHashes st, tab, bits) of
           (bh', tab', bits') \<Rightarrow>
             (1, st\<lparr>pBlockHashes := bh', pRsumHash := tab', pBitHash := bits',
                     pHashMask := hm, pBitHashMask := bm\<rparr>))"

text \<open>
  \<open>removeBlockFromHash\<close> walks a pointer \<open>p\<close> to a next-pointer along the chain: \<open>p\<close>
  is the address of a bucket of \<open>_pRsumHash\<close> or of the \<open>next\<close> field of an entry.
\<close>

datatype link = Bucket nat | NextOf nat

fun deref :: "zs_state \<Rightarrow> link \<Rightarrow> nat option" where
  "deref st (Bucket k) = pRsumHash st ! k"
| "deref st (NextOf e) = he_next (pBlockHashes st ! e)"

fun assign :: "zs_state \<Rightarrow> link \<Rightarrow> nat option \<Rightarrow> zs_state" where
  "assign st (Bucket k) v = st\<lparr>pRsumHash := (pRsumHash st)[k := v]\<rparr>"
| "assign st (NextOf e) v =
     st\<lparr>pBlockHashes := (pBlockHashes st)[e := (pBlockHashes st ! e)\<lparr>he_next := v\<rparr>]\<rparr>"

text \<open>
  The loop \<open>while (*p != NULL)\<close>. It ends when it finds the entry \<open>t\<close> or the end of the
  chain; on a chain that runs into a cycle without \<open>t\<close> it never ends. The first argument
  bounds the number of iterations, and \<open>None\<close> says that the bound was reached.
\<close>

fun remove_walk :: "nat \<Rightarrow> zs_state \<Rightarrow> link \<Rightarrow> nat \<Rightarrow> zs_state option" where
  "remove_walk 0 st p t = None"
| "remove_walk (Suc fuel) st p t =
     (case deref st p of
        None \<Rightarrow> Some st
      | Some e \<Rightarrow>
          if e = t then
            let nx = he_next (pBlockHashes st ! t);
                st1 = (if pRover st = Some t then st\<lparr>pRover := nx\<rparr> else st)
            in Some (assign st1 p nx)
          else remove_walk fuel st (NextOf e) t)"

text \<open>
  A chain without a cycle passes through every entry at most once, so one iteration more
  than there are entries is enough for it.
\<close>

definition removeBlockFromHash :: "job \<Rightarrow> zs_state \<Rightarrow> int \<Rightarrow> zs_state option" where
  "removeBlockFromHash j st bid =
     remove_walk (length (pBlockHashes st) + 1) st
       (Bucket (unat (calcRHash j (pBlockHashes st) (nat bid) AND pHashMask st))) (nat bid)"

subsection \<open>The known ranges\<close>

function rangeBefore_loop :: "int list \<Rightarrow> int \<Rightarrow> int \<Rightarrow> int \<Rightarrow> int" where
  "rangeBefore_loop R x mn mx =
     (if mn \<le> mx then
        (let r = (mx + mn) div 2
         in if x > R ! nat (2 * r + 1) then rangeBefore_loop R x (r + 1) mx
            else if x < R ! nat (2 * r) then rangeBefore_loop R x mn (r - 1)
            else - 1)
      else mn)"
  by pat_completeness auto
termination
  by (relation "measure (\<lambda>(R, x, mn, mx). nat (mx - mn + 1))") auto

declare rangeBefore_loop.simps [simp del]

definition rangeBeforeBlock :: "zs_state \<Rightarrow> int \<Rightarrow> int" where
  "rangeBeforeBlock st x = rangeBefore_loop (pRanges st) x 0 (int (nRanges st) - 1)"

text \<open>
  \<open>memmove(&a[dst], &a[src], cnt * sizeof a[0])\<close> on an array, and \<open>realloc\<close> to \<open>k\<close>
  elements: the old elements are kept, the new ones (unspecified in C, overwritten by
  \<open>addToRanges\<close> before they are read) are modelled as zero.
\<close>

definition memmove_list :: "'a list \<Rightarrow> nat \<Rightarrow> nat \<Rightarrow> nat \<Rightarrow> 'a list" where
  "memmove_list a dst src cnt = take dst a @ take cnt (drop src a) @ drop (dst + cnt) a"

definition realloc_list :: "int list \<Rightarrow> nat \<Rightarrow> int list" where
  "realloc_list a k = take k a @ replicate (k - length a) 0"

text \<open>
  \<open>addToRanges\<close>. The result \<open>r\<close> of \<open>rangeBeforeBlock\<close> is \<open>-1\<close> or the number of
  ranges below \<open>x\<close>; in the second case it indexes the array as the natural number \<open>k\<close>.
\<close>

definition addToRanges :: "zs_state \<Rightarrow> int \<Rightarrow> zs_state" where
  "addToRanges st x =
     (let r = rangeBeforeBlock st x; R = pRanges st; n = nRanges st
      in if r = - 1 then st
         else
           (let k = nat r
            in if k > 0 \<and> k < n \<and> R ! (2 * (k - 1) + 1) = x - 1 \<and> R ! (2 * k) = x + 1
               then st\<lparr>pRanges := memmove_list (R[2 * (k - 1) + 1 := R ! (2 * k + 1)])
                                       (2 * k) (2 * k + 2) ((n - k - 1) * 2),
                        nRanges := n - 1\<rparr>
               else if k > 0 \<and> n \<noteq> 0 \<and> R ! (2 * (k - 1) + 1) = x - 1
               then st\<lparr>pRanges := R[2 * (k - 1) + 1 := x]\<rparr>
               else if k < n \<and> R ! (2 * k) = x + 1
               then st\<lparr>pRanges := R[2 * k := x]\<rparr>
               else st\<lparr>pRanges := (memmove_list (realloc_list R ((n + 1) * 2))
                                         (2 * k + 2) (2 * k) ((n - k) * 2))
                                      [2 * k := x, 2 * k + 1 := x],
                        nRanges := n + 1\<rparr>))"

definition alreadyGotBlock :: "zs_state \<Rightarrow> int \<Rightarrow> bool" where
  "alreadyGotBlock st x = (rangeBeforeBlock st x = - 1)"

definition nextKnownBlock :: "job \<Rightarrow> zs_state \<Rightarrow> int \<Rightarrow> int" where
  "nextKnownBlock j st x =
     (let r = rangeBeforeBlock st x
      in if r = - 1 then x
         else if r = int (nRanges st) then int (nBlocks j)
         else pRanges st ! nat (2 * r))"

subsection \<open>Writing blocks to the target file\<close>

text \<open>
  \<open>QFile::seek\<close> refuses a negative position and leaves the file as it is.
  \<open>QFile::write\<close> replaces the bytes at the position and moves the position behind
  them; a file that ends before the position is first filled up with zero bytes; a write
  of no bytes does nothing.
\<close>

definition qf_seek :: "qfile \<Rightarrow> int \<Rightarrow> qfile" where
  "qf_seek f off = (if off < 0 then f else f\<lparr>qf_pos := nat off\<rparr>)"

definition qf_write :: "qfile \<Rightarrow> byte list \<Rightarrow> qfile" where
  "qf_write f bs =
     (if bs = [] then f
      else
        let p = qf_pos f;
            base = qf_bytes f @ replicate (p - length (qf_bytes f)) 0
        in f\<lparr>qf_bytes := take p base @ bs @ drop (p + length bs) base,
             qf_pos := p + length bs,
             qf_writes := qf_writes f @ [(p, bs)]\<rparr>)"

text \<open>The loop of \<open>writeBlocks\<close> over the ids from \<open>bfrom\<close> to \<open>bto\<close>.\<close>

fun write_ids :: "job \<Rightarrow> zs_state \<Rightarrow> int list \<Rightarrow> zs_state option" where
  "write_ids j st [] = Some st"
| "write_ids j st (i # ids) =
     (case removeBlockFromHash j st i of
        None \<Rightarrow> None
      | Some st' \<Rightarrow> write_ids j (addToRanges st' i) ids)"

text \<open>
  \<open>writeBlocks\<close>. \<open>data\<close> is the memory from the pointer on; \<open>write\<close> takes \<open>len\<close>
  bytes of it (none if \<open>len\<close> is not positive).
\<close>

definition writeBlocks :: "job \<Rightarrow> zs_state \<Rightarrow> byte list \<Rightarrow> int \<Rightarrow> int \<Rightarrow> zs_state option" where
  "writeBlocks j st data bfrom bto =
     (let len = ((bto + nBlockIdOffset j) - (bfrom + nBlockIdOffset j) + 1) * 2 ^ nBlockShift j;
          offset = (bfrom + nBlockIdOffset j) * 2 ^ nBlockShift j;
          f = pTargetFile st;
          pos = qf_pos f;
          f1 = qf_seek f offset;
          f2 = qf_write f1 (take (nat len) data);
          f3 = qf_seek f2 (int pos)
      in write_ids j (st\<lparr>pTargetFile := f3\<rparr>) [bfrom..bto])"

subsection \<open>Checking a window against a hash chain\<close>

text \<open>
  The do-while loop of \<open>checkCheckSumsOnHashChain\<close> for the entry \<open>i\<close>: \<open>k\<close> is
  \<open>check_md4\<close>, \<open>dn\<close> is \<open>done_md4\<close> and \<open>sums\<close> is the array \<open>md4sum[2]\<close>, in which
  the digest of a block of the window is kept once it has been computed. The result is
  \<open>ok\<close> with the final values of the three.
\<close>

function strong_loop ::
  "job \<Rightarrow> hash_entry list \<Rightarrow> byte list \<Rightarrow> bool \<Rightarrow> nat \<Rightarrow> nat \<Rightarrow> int \<Rightarrow> byte list list
     \<Rightarrow> bool \<times> nat \<times> int \<times> byte list list" where
  "strong_loop j bh data onlyone i k dn sums =
     (let memo = (if int k > dn
                  then (int k, sums[k := md4 (window data (nBlockSize j * k) (nBlockSize j))])
                  else (dn, sums));
          ok = (take (nStrongCheckSumBytes j) (snd memo ! k)
                  = take (nStrongCheckSumBytes j) (he_checksum (bh ! (i + k))))
      in if ok \<and> \<not> onlyone \<and> k + 1 < nSeqMatches j
         then strong_loop j bh data onlyone i (k + 1) (fst memo) (snd memo)
         else (ok, k + 1, fst memo, snd memo))"
  by pat_completeness auto
termination
  by (relation "measure (\<lambda>(j, bh, data, onlyone, i, k, dn, sums). nSeqMatches j - k)") auto

declare strong_loop.simps [simp del]

text \<open>
  The body of the loop \<open>while (_pRover)\<close> for the entry \<open>e\<close> that \<open>_pRover\<close> points
  to. \<open>memo\<close> is \<open>done_md4\<close> with \<open>md4sum\<close>, \<open>got\<close> is \<open>got_blocks\<close>. The weak sums
  compared are \<open>_pCurrentWeakCheckSums\<close>, which the loop does not change. The result is
  \<open>None\<close> if \<open>writeBlocks\<close> does not return.
\<close>

definition chain_step ::
  "job \<Rightarrow> byte list \<Rightarrow> bool \<Rightarrow> int \<times> byte list list \<Rightarrow> int \<Rightarrow> zs_state \<Rightarrow> nat
     \<Rightarrow> ((int \<times> byte list list) \<times> int \<times> zs_state) option" where
  "chain_step j data onlyone memo got st e =
     (let bh = pBlockHashes st;
          rs = fst (pCurrentWeakCheckSums st);
          rs2 = snd (pCurrentWeakCheckSums st);
          st1 = st\<lparr>pRover := (if onlyone then None else he_next (bh ! e))\<rparr>
      in if rs_a (he_r (bh ! e)) \<noteq> (rs_a rs AND pWeakCheckSumMask j)
            \<or> rs_b (he_r (bh ! e)) \<noteq> rs_b rs
         then Some (memo, got, st1)
         else if \<not> onlyone \<and> nSeqMatches j > 1
            \<and> (rs_a (he_r (bh ! (e + 1))) \<noteq> (rs_a rs2 AND pWeakCheckSumMask j)
                \<or> rs_b (he_r (bh ! (e + 1))) \<noteq> rs_b rs2)
         then Some (memo, got, st1)
         else
           case strong_loop j bh data onlyone e 0 (fst memo) (snd memo) of
             (ok, k, memo') \<Rightarrow>
               if ok then
                 let next_known =
                       (if onlyone then nNextKnown st1 else nextKnownBlock j st1 (int e));
                     num_write_blocks =
                       (if next_known > int e + int k then int k else next_known - int e);
                     st2 = (if next_known > int e + int k
                            then st1\<lparr>pNextMatch := Some (e + k),
                                     nNextKnown := (if onlyone then nNextKnown st1
                                                    else next_known)\<rparr>
                            else st1)
                 in case writeBlocks j st2 data (int e) (int e + num_write_blocks - 1) of
                      None \<Rightarrow> None
                    | Some st3 \<Rightarrow> Some (memo', got + num_write_blocks, st3)
               else Some (memo', got, st1))"

text \<open>
  The loop \<open>while (_pRover)\<close>. The first argument bounds the number of iterations;
  \<open>None\<close> says that the bound was reached or that \<open>writeBlocks\<close> did not return.
\<close>

fun chain_loop ::
  "nat \<Rightarrow> job \<Rightarrow> byte list \<Rightarrow> bool \<Rightarrow> int \<times> byte list list \<Rightarrow> int \<Rightarrow> zs_state
     \<Rightarrow> (int \<times> zs_state) option" where
  "chain_loop 0 j data onlyone memo got st = None"
| "chain_loop (Suc fuel) j data onlyone memo got st =
     (case pRover st of
        None \<Rightarrow> Some (got, st)
      | Some e \<Rightarrow>
          (case chain_step j data onlyone memo got st e of
             None \<Rightarrow> None
           | Some (memo', got', st') \<Rightarrow> chain_loop fuel j data onlyone memo' got' st'))"

text \<open>
  \<open>checkCheckSumsOnHashChain(e, data, onlyone)\<close>. \<open>md4sum\<close> is not initialised, which
  is modelled as zero bytes; \<open>done_md4\<close> starts at \<open>-1\<close>, so that a digest is computed
  before it is read.
\<close>

definition checkCheckSumsOnHashChain ::
  "job \<Rightarrow> zs_state \<Rightarrow> nat option \<Rightarrow> byte list \<Rightarrow> bool \<Rightarrow> (int \<times> zs_state) option" where
  "checkCheckSumsOnHashChain j st e data onlyone =
     chain_loop (length (pBlockHashes st) + 1) j data onlyone
       (- 1, replicate 2 (replicate CHECKSUM_SIZE 0)) 0
       (st\<lparr>pNextMatch := None, pRover := e\<rparr>)"

subsection \<open>Scanning the seed\<close>

text \<open>The hash of the current weak sums, as computed in \<open>submitSourceData\<close>.\<close>

definition current_hash :: "job \<Rightarrow> zs_state \<Rightarrow> 32 word" where
  "current_hash j st =
     (let h = (ucast (rs_b (fst (pCurrentWeakCheckSums st))) :: 32 word)
      in h XOR push_bit BITHASHBITS
           (if nSeqMatches j > 1 then ucast (rs_b (snd (pCurrentWeakCheckSums st)))
            else ucast (rs_a (fst (pCurrentWeakCheckSums st)) AND pWeakCheckSumMask j)))"

text \<open>
  The block of the loop body that looks for a match of the window at \<open>x\<close>: first against
  \<open>_pNextMatch\<close> alone, then through the bit table and the hash table. The result is
  \<open>thismatch\<close>, \<open>blocks_matched\<close> and the new state.
\<close>

definition match_window ::
  "job \<Rightarrow> zs_state \<Rightarrow> byte list \<Rightarrow> nat \<Rightarrow> (int \<times> nat \<times> zs_state) option" where
  "match_window j st data x =
     (case (if pNextMatch st \<noteq> None \<and> nSeqMatches j > 1
            then (case checkCheckSumsOnHashChain j st (pNextMatch st) (drop x data) True of
                    None \<Rightarrow> None
                  | Some (thismatch, st') \<Rightarrow>
                      Some (thismatch, if thismatch \<noteq> 0 then 1 else 0, st'))
            else Some (0, 0, st)) of
        None \<Rightarrow> None
      | Some (thismatch, blocks_matched, st1) \<Rightarrow>
          if thismatch = 0 then
            (let hash = current_hash j st1;
                 e = pRsumHash st1 ! unat (hash AND pHashMask st1)
             in if (pBitHash st1 ! unat (drop_bit 3 (hash AND pBitHashMask st1)))
                     AND ucast (push_bit (unat (hash AND 7)) (1 :: 32 word)) \<noteq> 0
                   \<and> e \<noteq> None
                then (case checkCheckSumsOnHashChain j st1 e (drop x data) False of
                        None \<Rightarrow> None
                      | Some (thismatch', st2) \<Rightarrow>
                          Some (thismatch',
                                if thismatch' \<noteq> 0 then nSeqMatches j else blocks_matched, st2))
                else Some (thismatch, blocks_matched, st1))
          else Some (thismatch, blocks_matched, st1))"

text \<open>
  The loop \<open>for (;;)\<close> of \<open>submitSourceData\<close>. The byte \<open>Nc = data[x + bs * 2]\<close> is
  read here where it is used, with \<open>nSeqMatches > 1\<close>. The first argument bounds the
  number of iterations.
\<close>

fun scan_loop ::
  "nat \<Rightarrow> job \<Rightarrow> byte list \<Rightarrow> nat \<Rightarrow> nat \<Rightarrow> int \<Rightarrow> zs_state \<Rightarrow> (int \<times> zs_state) option" where
  "scan_loop 0 j data len x got st = None"
| "scan_loop (Suc fuel) j data len x got st =
     (if x + nContext j = len then Some (got, st)
      else
        case match_window j st data x of
          None \<Rightarrow> None
        | Some (thismatch, blocks_matched, st1) \<Rightarrow>
            let bs = nBlockSize j;
                got' = got + thismatch;
                cur = pCurrentWeakCheckSums st1
            in if blocks_matched \<noteq> 0 then
                 (let x' = x + bs + (if blocks_matched > 1 then bs else 0)
                  in if x' + nContext j > len
                     then Some (got', st1\<lparr>nSkip := x' + nContext j - len\<rparr>)
                     else
                       let fst' = (if nSeqMatches j > 1 \<and> blocks_matched = 1 then snd cur
                                   else calc_rsum_block (window data x' bs));
                           snd' = (if nSeqMatches j > 1
                                   then calc_rsum_block (window data (x' + bs) bs)
                                   else snd cur)
                       in scan_loop fuel j data len x' got'
                            (st1\<lparr>pCurrentWeakCheckSums := (fst', snd')\<rparr>))
               else
                 (let nc = data ! (x + bs);
                      oc = data ! x;
                      fst' = UPDATE_RSUM (fst cur) oc nc (nBlockShift j);
                      snd' = (if nSeqMatches j > 1
                              then UPDATE_RSUM (snd cur) nc (data ! (x + bs * 2)) (nBlockShift j)
                              else snd cur)
                  in scan_loop fuel j data len (x + 1) got'
                       (st1\<lparr>pCurrentWeakCheckSums := (fst', snd')\<rparr>)))"

text \<open>
  \<open>submitSourceData(data, len, offset)\<close>. Every iteration of the loop that does not
  return moves \<open>x\<close> forward, so \<open>len + 1\<close> iterations are enough when the first window
  lies in the buffer.
\<close>

definition submitSourceData ::
  "job \<Rightarrow> zs_state \<Rightarrow> byte list \<Rightarrow> nat \<Rightarrow> nat \<Rightarrow> (int \<times> zs_state) option" where
  "submitSourceData j st data len offset =
     (let bs = nBlockSize j;
          x = (if offset \<noteq> 0 then nSkip st else 0);
          st1 = (if offset \<noteq> 0 then st else st\<lparr>pNextMatch := None\<rparr>);
          st2 = (if x \<noteq> 0 \<or> offset = 0
                 then st1\<lparr>pCurrentWeakCheckSums :=
                        (calc_rsum_block (window data x bs),
                         if nSeqMatches j > 1 then calc_rsum_block (window data (x + bs) bs)
                         else snd (pCurrentWeakCheckSums st1))\<rparr>
                 else st1)
      in scan_loop (len + 1) j data len x 0 (st2\<lparr>nSkip := 0\<rparr>))"

text \<open>
  Writing bytes into the buffer at an offset (\<open>read\<close> into \<open>buf + off\<close>, \<open>memcpy\<close>,
  \<open>memset\<close>).
\<close>

definition store :: "byte list \<Rightarrow> nat \<Rightarrow> byte list \<Rightarrow> byte list" where
  "store buf off bytes = take off buf @ bytes @ drop (off + length bytes) buf"

text \<open>
  One pass of the loop \<open>while (!file->atEnd())\<close> of \<open>submitSourceFile\<close> up to the
  call of \<open>submitSourceData\<close>: \<open>seed\<close> are the bytes of the file, \<open>pos\<close> its position,
  \<open>inn\<close> the counter \<open>in\<close>. The result is the buffer, \<open>len\<close>, the new position of the
  file and the new value of \<open>in\<close>.
\<close>

definition refill ::
  "job \<Rightarrow> byte list \<Rightarrow> nat \<Rightarrow> byte list \<Rightarrow> nat \<Rightarrow> byte list \<times> nat \<times> nat \<times> nat" where
  "refill j seed pos buf inn =
     (let bufsize = nBlockSize j * 16;
          ctx = nContext j;
          rd = (if inn = 0 then take bufsize (drop pos seed)
                else take (bufsize - ctx) (drop pos seed));
          buf1 = (if inn = 0 then store buf 0 rd
                  else store (store buf 0 (window buf (bufsize - ctx) ctx)) ctx rd);
          len = (if inn = 0 then length rd else ctx + length rd);
          inn' = (if inn = 0 then inn + length rd else inn + (bufsize - ctx));
          pos' = pos + length rd;
          at_end = (pos' \<ge> length seed)
      in (if at_end then store buf1 len (replicate ctx 0) else buf1,
          if at_end then len + ctx else len, pos', inn'))"

text \<open>
  The loop itself; \<open>start_in\<close>, the offset handed to \<open>submitSourceData\<close>, is the value
  of \<open>in\<close> before the pass. The first argument bounds the number of iterations.
\<close>

fun file_loop ::
  "nat \<Rightarrow> job \<Rightarrow> byte list \<Rightarrow> nat \<Rightarrow> byte list \<Rightarrow> nat \<Rightarrow> int \<Rightarrow> zs_state
     \<Rightarrow> (int \<times> zs_state) option" where
  "file_loop 0 j seed pos buf inn got st = None"
| "file_loop (Suc fuel) j seed pos buf inn got st =
     (if pos \<ge> length seed then Some (got, st)
      else
        case refill j seed pos buf inn of (buf', len, pos', inn') \<Rightarrow>
          case submitSourceData j st buf' len inn of
            None \<Rightarrow> None
          | Some (g, st') \<Rightarrow> file_loop fuel j seed pos' buf' inn' (got + g) st')"

text \<open>
  \<open>submitSourceFile\<close>. The buffer of \<open>bufsize + _nContext\<close> bytes comes from
  \<open>malloc\<close>; its first contents, which the scan never reads, are modelled as zero bytes.
  Every call of \<open>read\<close> before the end of the file delivers at least one byte, so one
  iteration more than the file has bytes is enough.
\<close>

definition submitSourceFile :: "job \<Rightarrow> zs_state \<Rightarrow> byte list \<Rightarrow> (int \<times> zs_state) option" where
  "submitSourceFile j st seed =
     (let bufsize = nBlockSize j * 16;
          st1 = (if pRsumHash st = [] then snd (buildHash j st) else st)
      in file_loop (length seed + 1) j seed 0 (replicate (bufsize + nContext j) 0) 0 0 st1)"

definition tryOpenSeedFile :: "job \<Rightarrow> error_code \<times> byte list" where
  "tryOpenSeedFile j =
     (let f = sSeedFilePath j
      in if \<not> sf_exists f then (SOURCE_FILE_NOT_FOUND, [])
         else if \<not> sf_readable f then (NO_PERMISSION_TO_READ_SOURCE_FILE, [])
         else if \<not> sf_opens f then (CANNOT_OPEN_SOURCE_FILE, [])
         else (NO_ERROR, sf_bytes f))"

subsection \<open>The required ranges and the job\<close>

text \<open>
  The loop of \<open>getRequiredRanges\<close> over the known ranges: \<open>ret\<close> is \<open>ret_ranges\<close>,
  \<open>n\<close> the counter of the same name.
\<close>

fun required_loop ::
  "job \<Rightarrow> int list \<Rightarrow> int \<Rightarrow> int \<Rightarrow> nat list \<Rightarrow> (int \<times> int) list \<times> nat
     \<Rightarrow> (int \<times> int) list \<times> nat" where
  "required_loop j R from to [] acc = acc"
| "required_loop j R from to (i # is) (ret, n) =
     (let ret1 = ret @ [if n = 1 then (from, to) else (0, 0)];
          lo = R ! (2 * i) + nBlockIdOffset j;
          hi = R ! (2 * i + 1) + nBlockIdOffset j
      in if lo > snd (ret1 ! (n - 1)) then required_loop j R from to is (ret1, n)
         else if hi < from then required_loop j R from to is (ret1, n)
         else if n = 1 \<and> lo \<le> from
         then required_loop j R from to is (ret1[0 := (hi + 1, snd (ret1 ! 0))], n)
         else if hi \<ge> snd (ret1 ! (n - 1)) - 1
         then required_loop j R from to is (ret1[n - 1 := (fst (ret1 ! (n - 1)), lo)], n)
         else
           (let ret2 = ret1[n := (hi + 1, snd (ret1 ! (n - 1)))];
                ret3 = ret2[n - 1 := (fst (ret2 ! (n - 1)), lo)]
            in required_loop j R from to is (ret3, n + 1)))"

type_synonym required_ranges = "((int \<times> int) \<times> byte list list) list"

text \<open>\<open>getRequiredRanges\<close>; the result \<open>None\<close> is the null pointer.\<close>

definition getRequiredRanges :: "job \<Rightarrow> zs_state \<Rightarrow> required_ranges option" where
  "getRequiredRanges j st =
     (let from = 0 + nBlockIdOffset j;
          to = int (nBlocks j) + nBlockIdOffset j
      in case required_loop j (pRanges st) from to [0..<nRanges st] ([(from, to), (0, 0)], 1) of
           (ret, n) \<Rightarrow>
             let ret' = (if n = 1 \<and> fst (ret ! 0) \<ge> snd (ret ! 0) then [] else ret);
                 ret'' = filter (\<lambda>p. p \<noteq> (0, 0)) ret'
             in if ret'' \<noteq> []
                then Some (map (\<lambda>p. (p, map (\<lambda>x. take (nStrongCheckSumBytes j)
                                                  (he_checksum (pBlockHashes st ! nat x)))
                                          [fst p - nBlockIdOffset j .. snd p - nBlockIdOffset j]))
                           ret'')
                else None)"

text \<open>
  Modelled from the spec: the struct \<open>Result\<close> is declared in the header that is not
  among the sources; by the spec a result starts with \<open>got_blocks = 0\<close> and no required
  ranges.
\<close>

record Result =
  errorCode :: error_code
  gotBlocks :: int
  requiredRanges :: "required_ranges option"

text \<open>
  \<open>operator()\<close> on a freshly constructed job: the result and the final state of the
  job, or \<open>None\<close> if the scan does not return.
\<close>

definition operator_call :: "Information \<Rightarrow> (Result \<times> zs_state) option" where
  "operator_call info =
     (let j = job_of info;
          st = init_state info;
          result = \<lparr>errorCode = NO_ERROR, gotBlocks = 0, requiredRanges = None\<rparr>
      in case parseTargetFileCheckSumBlocks j st of (err, st1) \<Rightarrow>
           if err \<noteq> NO_ERROR then Some (result\<lparr>errorCode := err\<rparr>, st1)
           else case tryOpenSeedFile j of (err2, seed) \<Rightarrow>
             if err2 \<noteq> NO_ERROR then Some (result\<lparr>errorCode := err2\<rparr>, st1)
             else case submitSourceFile j st1 seed of
                    None \<Rightarrow> None
                  | Some (got, st2) \<Rightarrow>
                      Some (result\<lparr>gotBlocks := gotBlocks result + got,
                                   requiredRanges := getRequiredRanges j st2\<rparr>, st2))"

subsection \<open>The checksum blocks of a target and an example job\<close>

text \<open>
  Modelled from the spec: the checksum blocks of the control file are made by the zsync
  tool that publishes a target, not by code among the sources. By the spec (External
  interfaces) the stream is a packed sequence of records, one per block, each the last
  \<open>weak_bytes\<close> bytes of the big-endian four-byte field \<open>a, b\<close> of the block's rolling
  checksum followed by the first \<open>strong_bytes\<close> bytes of the block's MD4; a last block
  that the target does not fill is completed with zero bytes.
\<close>

definition checksum_record :: "nat \<Rightarrow> nat \<Rightarrow> byte list \<Rightarrow> byte list" where
  "checksum_record wb sb blk =
     (let r = calc_rsum_block blk
      in drop (4 - wb) [ucast (drop_bit 8 (rs_a r)), ucast (rs_a r),
                        ucast (drop_bit 8 (rs_b r)), ucast (rs_b r)]
         @ take sb (md4 blk))"

definition target_block :: "nat \<Rightarrow> byte list \<Rightarrow> nat \<Rightarrow> byte list" where
  "target_block bs target i =
     window target (i * bs) bs @ replicate (bs - length (window target (i * bs) bs)) 0"

definition checksum_stream :: "nat \<Rightarrow> nat \<Rightarrow> nat \<Rightarrow> nat \<Rightarrow> byte list \<Rightarrow> byte list" where
  "checksum_stream wb sb bs nb target =
     concat (map (\<lambda>i. checksum_record wb sb (target_block bs target i)) [0..<nb])"

text \<open>
  The information of a job for a target with four-byte weak checksums and block id offset
  0: the checksum blocks are those of the target, the seed file exists and can be read, the
  target file starts as zero bytes.
\<close>

definition example_information ::
  "nat \<Rightarrow> nat \<Rightarrow> nat \<Rightarrow> nat \<Rightarrow> byte list \<Rightarrow> byte list \<Rightarrow> Information" where
  "example_information bs nb sq sb target seed =
     \<lparr>blockSize = bs, blockIdOffset = 0, blocks = nb, weakCheckSumBytes = 4,
      strongCheckSumBytes = sb, seqMatches = sq,
      targetFile = \<lparr>qf_bytes = replicate (nb * bs) 0, qf_pos = 0, qf_writes = []\<rparr>,
      checkSumBlocks = Some \<lparr>qb_bytes = checksum_stream 4 sb bs nb target, qb_opens = True\<rparr>,
      seedFilePath = \<lparr>sf_exists = True, sf_readable = True, sf_opens = True, sf_bytes = seed\<rparr>\<rparr>"

text \<open>
  The information of a job with blocks of four bytes, four-byte weak and sixteen-byte
  strong checksums, for a given number of blocks and a given checksum buffer; the seed file
  is empty.
\<close>

definition stream_information :: "nat \<Rightarrow> qbuffer option \<Rightarrow> Information" where
  "stream_information nb qb =
     \<lparr>blockSize = 4, blockIdOffset = 0, blocks = nb, weakCheckSumBytes = 4,
      strongCheckSumBytes = 16, seqMatches = 1,
      targetFile = \<lparr>qf_bytes = replicate (nb * 4) 0, qf_pos = 0, qf_writes = []\<rparr>,
      checkSumBlocks = qb,
      seedFilePath = \<lparr>sf_exists = True, sf_readable = True, sf_opens = True, sf_bytes = []\<rparr>\<rparr>"

subsection \<open>Reading the array of known ranges\<close>

text \<open>
  Range \<open>i\<close> of the array \<open>_pRanges\<close> is the pair of its elements \<open>2 * i\<close> and
  \<open>2 * i + 1\<close>, the first and the last block id of the range. \<open>ranges_inv\<close> says that
  the first \<open>_nRanges\<close> ranges lie in the array, are not empty, and are sorted with a gap
  of at least one block between neighbours; \<open>known\<close> is the set of block ids they cover.
\<close>

definition range_lo :: "int list \<Rightarrow> nat \<Rightarrow> int" where
  "range_lo R i = R ! (2 * i)"

definition range_hi :: "int list \<Rightarrow> nat \<Rightarrow> int" where
  "range_hi R i = R ! (2 * i + 1)"

definition ranges_inv :: "zs_state \<Rightarrow> bool" where
  "ranges_inv st \<longleftrightarrow>
     2 * nRanges st \<le> length (pRanges st)
     \<and> (\<forall>i < nRanges st. range_lo (pRanges st) i \<le> range_hi (pRanges st) i)
     \<and> (\<forall>i. Suc i < nRanges st \<longrightarrow> range_hi (pRanges st) i + 1 < range_lo (pRanges st) (Suc i))"

definition known :: "zs_state \<Rightarrow> int set" where
  "known st = (\<Union>i < nRanges st. {range_lo (pRanges st) i .. range_hi (pRanges st) i})"

text \<open>
  What \<open>rangeBeforeBlock\<close> returns on the array \<open>R\<close> with \<open>n\<close> ranges for the block
  \<open>x\<close>: \<open>-1\<close> with \<open>x\<close> inside a range, or the number \<open>r\<close> of ranges below \<open>x\<close>,
  all others lying above \<open>x\<close>.
\<close>

definition rb_post :: "int list \<Rightarrow> nat \<Rightarrow> int \<Rightarrow> int \<Rightarrow> bool" where
  "rb_post R n x r \<longleftrightarrow>
     (r = - 1 \<and> (\<exists>i < n. range_lo R i \<le> x \<and> x \<le> range_hi R i))
     \<or> (0 \<le> r \<and> r \<le> int n \<and> (\<forall>i. int i < r \<longrightarrow> range_hi R i < x)
         \<and> (\<forall>i. r \<le> int i \<and> i < n \<longrightarrow> x < range_lo R i))"


subsection \<open>Well-formed jobs and the shape of the hash table\<close>

text \<open>
  A job as the spec admits it: a positive block size, one or two sequential matches (the
  array \<open>md4sum\<close> has two slots), the context and the shift the constructor computes and
  a block id offset that is not negative.
\<close>

definition job_wf :: "job \<Rightarrow> bool" where
  "job_wf j \<longleftrightarrow>
     0 < nBlockSize j \<and> 0 < nSeqMatches j \<and> nSeqMatches j \<le> 2
     \<and> nContext j = nBlockSize j * nSeqMatches j \<and> 0 \<le> nBlockIdOffset j
     \<and> nBlockShift j = block_shift_of (nBlockSize j)"

text \<open>
  The shape of the tables while a seed is scanned: the array of entries has its
  \<open>blocks + seqMatches\<close> entries, the bucket array is as long as the mask says, every
  chain link leads from an entry to a later entry of a block, every bucket holds an entry of
  a block, and \<open>_pRover\<close> points to an entry of a block.
\<close>

definition hash_inv :: "job \<Rightarrow> zs_state \<Rightarrow> bool" where
  "hash_inv j st \<longleftrightarrow>
     length (pBlockHashes st) = nBlocks j + nSeqMatches j
     \<and> length (pRsumHash st) = unat (pHashMask st) + 1
     \<and> (\<forall>e < length (pBlockHashes st). \<forall>n. he_next (pBlockHashes st ! e) = Some n
            \<longrightarrow> e < n \<and> n < nBlocks j)
     \<and> (\<forall>k < length (pRsumHash st). \<forall>e. pRsumHash st ! k = Some e \<longrightarrow> e < nBlocks j)
     \<and> (\<forall>e. pRover st = Some e \<longrightarrow> e < nBlocks j)"

text \<open>
  What the scan never changes: the bit table, the two masks, and the checksums of the
  entries.
\<close>

definition keeps :: "zs_state \<Rightarrow> zs_state \<Rightarrow> bool" where
  "keeps st st' \<longleftrightarrow>
     pBitHash st' = pBitHash st \<and> pHashMask st' = pHashMask st
     \<and> pBitHashMask st' = pBitHashMask st
     \<and> map he_r (pBlockHashes st') = map he_r (pBlockHashes st)
     \<and> map he_checksum (pBlockHashes st') = map he_checksum (pBlockHashes st)"

text \<open>The number of entries from \<open>_pRover\<close> to the end of the array.\<close>

definition rover_rank :: "zs_state \<Rightarrow> nat" where
  "rover_rank st = (case pRover st of None \<Rightarrow> 0 | Some e \<Rightarrow> length (pBlockHashes st) - e)"

text \<open>
  The strong check of \<open>n\<close> blocks of a window against the stored checksums \<open>cs\<close> of the
  blocks from \<open>e\<close> on: the first \<open>strong_bytes\<close> bytes of the MD4 of each block agree.
\<close>

definition strong_match :: "job \<Rightarrow> byte list list \<Rightarrow> byte list \<Rightarrow> nat \<Rightarrow> nat \<Rightarrow> bool" where
  "strong_match j cs data e n \<longleftrightarrow>
     (\<forall>k < n. take (nStrongCheckSumBytes j) (md4 (window data (nBlockSize j * k) (nBlockSize j)))
               = take (nStrongCheckSumBytes j) (cs ! (e + k)))"

text \<open>
  A write of the history is gated if it is what \<open>writeBlocks\<close> writes for \<open>n\<close> blocks from
  block \<open>e\<close> on out of data that passed the strong check for these blocks.
\<close>

definition write_gated :: "job \<Rightarrow> byte list list \<Rightarrow> nat \<times> byte list \<Rightarrow> bool" where
  "write_gated j cs w \<longleftrightarrow>
     (\<exists>e n data. 0 < n \<and> n * nBlockSize j \<le> length data
        \<and> fst w = nat ((int e + nBlockIdOffset j) * 2 ^ nBlockShift j)
        \<and> snd w = take (n * 2 ^ nBlockShift j) data
        \<and> strong_match j cs data e n)"


text \<open>
  The two frames of the steps of a scan: a step that only touches the hash table and the
  rover leaves everything else as it was; a step that also records blocks as known leaves
  the target file and the scan position as they were.
\<close>

definition hash_only :: "zs_state \<Rightarrow> zs_state \<Rightarrow> bool" where
  "hash_only st st' \<longleftrightarrow>
     pRanges st' = pRanges st \<and> nRanges st' = nRanges st \<and> pTargetFile st' = pTargetFile st
     \<and> pNextMatch st' = pNextMatch st \<and> nNextKnown st' = nNextKnown st
     \<and> nSkip st' = nSkip st \<and> pCurrentWeakCheckSums st' = pCurrentWeakCheckSums st"

definition same_scan :: "zs_state \<Rightarrow> zs_state \<Rightarrow> bool" where
  "same_scan st st' \<longleftrightarrow>
     pTargetFile st' = pTargetFile st \<and> pNextMatch st' = pNextMatch st
     \<and> nNextKnown st' = nNextKnown st \<and> nSkip st' = nSkip st
     \<and> pCurrentWeakCheckSums st' = pCurrentWeakCheckSums st"

text \<open>
  A pointer of \<open>removeBlockFromHash\<close> from which the walk has enough iterations left: a
  bucket of the table with more iterations than there are entries, or the \<open>next\<close> field of
  an entry with as many iterations as there are entries from it on.
\<close>

definition link_ok :: "zs_state \<Rightarrow> link \<Rightarrow> nat \<Rightarrow> bool" where
  "link_ok st p fuel \<longleftrightarrow>
     (case p of
        Bucket k \<Rightarrow> k < length (pRsumHash st) \<and> length (pBlockHashes st) < fuel
      | NextOf e \<Rightarrow> e < length (pBlockHashes st) \<and> length (pBlockHashes st) - e \<le> fuel)"

text \<open>
  The state in which the scan of a seed starts: the checksum blocks are parsed into the
  entries the constructor allocated, and the hash table is built.
\<close>

definition ready_state :: "Information \<Rightarrow> zs_state" where
  "ready_state info =
     snd (buildHash (job_of info)
            (snd (parseTargetFileCheckSumBlocks (job_of info) (init_state info))))"

text \<open>
  The local \<open>done_md4\<close> with \<open>md4sum\<close> of \<open>checkCheckSumsOnHashChain\<close> for the window
  \<open>data\<close>: the slots up to \<open>done_md4\<close> hold the digests of the blocks of the window.
\<close>

definition memo_ok :: "job \<Rightarrow> byte list \<Rightarrow> int \<times> byte list list \<Rightarrow> bool" where
  "memo_ok j data memo \<longleftrightarrow>
     length (snd memo) = 2 \<and> - 1 \<le> fst memo \<and> fst memo < 2
     \<and> (\<forall>k. int k \<le> fst memo \<longrightarrow>
            snd memo ! k = md4 (window data (nBlockSize j * k) (nBlockSize j)))"

text \<open>
  The state of a job between the steps of a scan: the tables have their shape, the known
  ranges are sorted and separated and hold ids of blocks only, and \<open>_nNextKnown\<close> and
  \<open>_pNextMatch\<close> do not point beyond the blocks.
\<close>

definition scan_inv :: "job \<Rightarrow> zs_state \<Rightarrow> bool" where
  "scan_inv j st \<longleftrightarrow>
     hash_inv j st \<and> ranges_inv st \<and> known st \<subseteq> {0 ..< int (nBlocks j)}
     \<and> nNextKnown st \<le> int (nBlocks j)
     \<and> (\<forall>m. pNextMatch st = Some m \<longrightarrow> m < nBlocks j)"

text \<open>
  What a scan does to the state from \<open>st\<close> to \<open>st'\<close>: it keeps the checksums, it leaves
  the position of the target file where it was, and it adds writes to the history of the
  file that are all gated by the strong check.
\<close>

definition scan_rel :: "job \<Rightarrow> zs_state \<Rightarrow> zs_state \<Rightarrow> bool" where
  "scan_rel j st st' \<longleftrightarrow>
     keeps st st' \<and> qf_pos (pTargetFile st') = qf_pos (pTargetFile st)
     \<and> (\<exists>ws. qf_writes (pTargetFile st') = qf_writes (pTargetFile st) @ ws
            \<and> (\<forall>w \<in> set ws. write_gated j (map he_checksum (pBlockHashes st)) w))"

text \<open>
  What \<open>parse_blocks\<close> stores in the entry of a block from the two fields \<open>w\<close> and \<open>c\<close>
  of its record.
\<close>

definition parsed_entry :: "job \<Rightarrow> byte list \<Rightarrow> byte list \<Rightarrow> hash_entry \<Rightarrow> hash_entry" where
  "parsed_entry j w c e =
     (let mem = rsum_field (nWeakCheckSumBytes j) w
      in e\<lparr>he_checksum := c @ drop (nStrongCheckSumBytes j) (he_checksum e),
           he_r := \<lparr>rs_a = be16 (mem ! 0) (mem ! 1) AND pWeakCheckSumMask j,
                    rs_b = be16 (mem ! 2) (mem ! 3)\<rparr>\<rparr>)"

text \<open>
  The entries of a target after its checksum blocks are parsed: for every block its
  rolling checksum and the first \<open>sb\<close> bytes of its MD4, and \<open>sq\<close> zero entries after the
  last block.
\<close>

definition target_entries :: "nat \<Rightarrow> nat \<Rightarrow> nat \<Rightarrow> nat \<Rightarrow> byte list \<Rightarrow> hash_entry list" where
  "target_entries bs nb sq sb target =
     map (\<lambda>i. \<lparr>he_next = None, he_r = calc_rsum_block (target_block bs target i),
                he_checksum = take sb (md4 (target_block bs target i)) @ replicate (16 - sb) 0\<rparr>)
       [0..<nb]
     @ replicate sq zero_entry"

text \<open>
  The job for the target \<open>ABC\<close> with one block of three bytes, a block size that is not a
  power of two, and the seed \<open>ABC\<close>.
\<close>

definition abc_job :: job where
  "abc_job = job_of (example_information 3 1 1 16 [65, 66, 67] [65, 66, 67])"

subsection \<open>A scan that finds no weak match\<close>



text \<open>
  What a scan without a match leaves as it was: the tables, the known ranges and the target
  file.
\<close>

definition quiet :: "zs_state \<Rightarrow> zs_state \<Rightarrow> bool" where
  "quiet st st' \<longleftrightarrow>
     pBlockHashes st' = pBlockHashes st \<and> pRsumHash st' = pRsumHash st
     \<and> pBitHash st' = pBitHash st \<and> pHashMask st' = pHashMask st
     \<and> pBitHashMask st' = pBitHashMask st \<and> pRanges st' = pRanges st
     \<and> nRanges st' = nRanges st \<and> nNextKnown st' = nNextKnown st
     \<and> pTargetFile st' = pTargetFile st"

text \<open>
  The job for the target \<open>E\<close> of one byte with one block of four bytes, and the seed \<open>E\<close>,
  which is shorter than the context of four bytes.
\<close>

definition pad_job :: job where
  "pad_job = job_of (example_information 4 1 1 16 [69] [69])"

section \<open>Rolling checksum\<close>

text \<open>
  The cast from \<open>int\<close> back to \<open>unsigned short\<close> commutes with the arithmetic of the
  update, so the macro computes in 16 bits.
\<close>

lemma tb_add: "take_bit 16 (x + y :: int) = take_bit 16 (take_bit 32 x + take_bit 32 y)"
proof -
  have "take_bit 16 (x + y) = take_bit 16 (take_bit 16 x + take_bit 16 y)" by (simp add: take_bit_add)
  also have "\<dots> = take_bit 16 (take_bit 16 (take_bit 32 x) + take_bit 16 (take_bit 32 y))" by simp
  also have "\<dots> = take_bit 16 (take_bit 32 x + take_bit 32 y)" by (simp only: take_bit_add)
  finally show ?thesis .
qed

lemma ucast_down_add: "(ucast ((x::32 word) + y) :: 16 word) = ucast x + ucast y"
  by transfer (simp, rule tb_add)

lemma tb_diff: "take_bit 16 (x - y :: int) = take_bit 16 (take_bit 32 x - take_bit 32 y)"
proof -
  have "take_bit 16 (x - y) = take_bit 16 (take_bit 16 x - take_bit 16 y)" by (simp add: take_bit_diff)
  also have "\<dots> = take_bit 16 (take_bit 16 (take_bit 32 x) - take_bit 16 (take_bit 32 y))" by simp
  also have "\<dots> = take_bit 16 (take_bit 32 x - take_bit 32 y)" by (simp only: take_bit_diff)
  finally show ?thesis .
qed

lemma ucast_down_diff: "(ucast ((x::32 word) - y) :: 16 word) = ucast x - ucast y"
  by transfer (simp, rule tb_diff)

lemma ucast_up_down: "(ucast (ucast (x::16 word) :: 32 word) :: 16 word) = x"
  by transfer simp

lemma ucast_byte_up: "(ucast (ucast (c::8 word) :: 32 word) :: 16 word) = ucast c"
  by transfer simp

lemma ucast_push_bit: "(ucast (push_bit k (x :: 32 word)) :: 16 word) = push_bit k (ucast x)"
  by (rule bit_word_eqI) (auto simp: bit_simps)

lemma UPDATE_RSUM_16:
  "UPDATE_RSUM r oldc newc sh =
     \<lparr>rs_a = rs_a r + ucast newc - ucast oldc,
      rs_b = rs_b r + (rs_a r + ucast newc - ucast oldc) - push_bit sh (ucast oldc)\<rparr>"
  by (simp add: UPDATE_RSUM_def Let_def ucast_down_add ucast_down_diff ucast_up_down ucast_byte_up ucast_push_bit)

lemma calc_rsum_loop_acc:
  "calc_rsum_loop xs a b = \<lparr>rs_a = a + rs_a (calc_rsum_loop xs 0 0), rs_b = b + rs_b (calc_rsum_loop xs 0 0)\<rparr>"
proof (induction xs arbitrary: a b)
  case Nil show ?case by simp
next
  case (Cons c xs)
  have 1: "calc_rsum_loop (c # xs) a b = calc_rsum_loop xs (a + ucast c) (b + of_nat (Suc (length xs)) * ucast c)"
    by simp
  have 2: "calc_rsum_loop (c # xs) 0 0 = calc_rsum_loop xs (ucast c) (of_nat (Suc (length xs)) * ucast c)"
    by simp
  show ?case
    unfolding 1 2
    by (subst Cons.IH, subst (2 3) Cons.IH) (simp add: algebra_simps)
qed

lemma calc_rsum_block_Cons:
  "calc_rsum_block (c # xs) =
     \<lparr>rs_a = ucast c + rs_a (calc_rsum_block xs),
      rs_b = of_nat (Suc (length xs)) * ucast c + rs_b (calc_rsum_block xs)\<rparr>"
  unfolding calc_rsum_block_def
  by (simp, subst calc_rsum_loop_acc, simp)

lemma calc_rsum_block_Nil: "calc_rsum_block [] = \<lparr>rs_a = 0, rs_b = 0\<rparr>"
  by (simp add: calc_rsum_block_def)

lemma calc_rsum_block_snoc:
  "calc_rsum_block (xs @ [n]) =
     \<lparr>rs_a = rs_a (calc_rsum_block xs) + ucast n,
      rs_b = rs_b (calc_rsum_block xs) + rs_a (calc_rsum_block xs) + ucast n\<rparr>"
  by (induction xs) (simp_all add: calc_rsum_block_Cons calc_rsum_block_Nil algebra_simps)

lemma rsum_slide_list:
  "UPDATE_RSUM (calc_rsum_block (c # xs)) c n sh =
     \<lparr>rs_a = rs_a (calc_rsum_block (xs @ [n])),
      rs_b = rs_b (calc_rsum_block (xs @ [n])) + of_nat (Suc (length xs)) * ucast c - push_bit sh (ucast c)\<rparr>"
  by (simp add: UPDATE_RSUM_16 calc_rsum_block_Cons calc_rsum_block_snoc algebra_simps)

lemma window_step:
  assumes "p + n < length buf" "0 < n"
  shows "window buf p n = buf ! p # tl (window buf p n)"
    and "window buf (Suc p) n = tl (window buf p n) @ [buf ! (p + n)]"
    and "length (tl (window buf p n)) = n - 1"
proof -
  have p: "p < length buf" using assms by simp
  obtain m where n: "n = Suc m" using assms(2) by (cases n) auto
  have d: "drop p buf = buf ! p # drop (Suc p) buf" using p by (simp add: Cons_nth_drop_Suc)
  show "window buf p n = buf ! p # tl (window buf p n)"
    by (simp add: window_def n d)
  have "take (Suc m) (drop (Suc p) buf) = take m (drop (Suc p) buf) @ [drop (Suc p) buf ! m]"
    using assms n by (simp add: take_Suc_conv_app_nth)
  then show "window buf (Suc p) n = tl (window buf p n) @ [buf ! (p + n)]"
    using assms n by (simp add: window_def d)
  show "length (tl (window buf p n)) = n - 1"
    using assms by (simp add: window_def)
qed

lemma ilog2_power: "ilog2 (2 ^ k) = k"
proof (induction k)
  case 0 show ?case by (simp add: ilog2.simps)
next
  case (Suc k)
  have "ilog2 (2 ^ Suc k) = Suc (ilog2 (2 ^ Suc k div 2))"
    by (subst ilog2.simps) simp
  then show ?case using Suc by simp
qed

lemma block_shift_of_power: "block_shift_of (2 ^ k) = k"
proof -
  have a: "(2::nat) ^ k = 1024 \<Longrightarrow> k = 10"
    using power_inject_exp[of "2::nat" k 10] by simp
  have b: "(2::nat) ^ k = 2048 \<Longrightarrow> k = 11"
    using power_inject_exp[of "2::nat" k 11] by simp
  show ?thesis using a b by (auto simp: block_shift_of_def ilog2_power)
qed

lemma rsum_slide_step:
  assumes "p + 2 ^ k < length buf"
  shows "UPDATE_RSUM (calc_rsum_block (window buf p (2 ^ k))) (buf ! p) (buf ! (p + 2 ^ k)) k
           = calc_rsum_block (window buf (Suc p) (2 ^ k))"
proof -
  let ?n = "(2::nat) ^ k"
  have pos: "0 < ?n" by simp
  note w = window_step[OF assms pos]
  have len: "Suc (length (tl (window buf p ?n))) = ?n" using w(3) by simp
  have "UPDATE_RSUM (calc_rsum_block (window buf p ?n)) (buf ! p) (buf ! (p + ?n)) k
      = UPDATE_RSUM (calc_rsum_block (buf ! p # tl (window buf p ?n))) (buf ! p) (buf ! (p + ?n)) k"
    using w(1) by simp
  also have "\<dots> = calc_rsum_block (tl (window buf p ?n) @ [buf ! (p + ?n)])"
    by (simp only: rsum_slide_list len) (simp add: push_bit_eq_mult)
  finally show ?thesis using w(2) by simp
qed

lemma slide_from_fresh:
  assumes "p + q + 2 ^ k \<le> length buf"
  shows "slide_from buf (2 ^ k) k p (calc_rsum_block (window buf p (2 ^ k))) q
           = calc_rsum_block (window buf (p + q) (2 ^ k))"
  using assms
proof (induction q arbitrary: p)
  case 0 show ?case by simp
next
  case (Suc q)
  have "p + 2 ^ k < length buf" using Suc.prems by simp
  from rsum_slide_step[OF this] Suc.IH[of "Suc p"] Suc.prems
  show ?case by simp
qed

lemma block_shift_of_3: "block_shift_of 3 = 1"
  by (simp add: block_shift_of_def ilog2.simps)


text \<open>
  Claim C5, as the code has it. When the block size is a power of two, \<open>2 ^ k\<close>, the
  constructor's shift is \<open>k\<close>, and one update of the sum of the window at \<open>p\<close> with the
  byte that leaves and the byte that enters gives the sum of the window at \<open>p + 1\<close>; so
  the sum slid from position 0 up to \<open>p + 1\<close> is the sum computed afresh there.
\<close>

theorem rsum_slide_power_of_two:
  assumes "bs = 2 ^ k" and "p + bs < length buf"
  shows "UPDATE_RSUM (calc_rsum_block (window buf p bs)) (buf ! p) (buf ! (p + bs))
            (block_shift_of bs) = calc_rsum_block (window buf (Suc p) bs)
         \<and> slide_from buf bs (block_shift_of bs) 0 (calc_rsum_block (window buf 0 bs)) (Suc p)
            = calc_rsum_block (window buf (Suc p) bs)"
proof -
  have 1: "p + 2 ^ k < length buf" using assms by simp
  have 2: "0 + Suc p + 2 ^ k \<le> length buf" using assms by simp
  show ?thesis
    using rsum_slide_step[OF 1] slide_from_fresh[OF 2]
    by (simp add: assms(1) block_shift_of_power)
qed


theorem rsum_slide_power_of_two_witness:
  "(4::nat) = 2 ^ 2 \<and> 1 + 4 < length [65, 66, 67, 68, 69, 70, 71, 72 :: byte]
   \<and> UPDATE_RSUM (calc_rsum_block (window [65, 66, 67, 68, 69, 70, 71, 72] 1 4))
        ([65, 66, 67, 68, 69, 70, 71, 72] ! 1) ([65, 66, 67, 68, 69, 70, 71, 72] ! (1 + 4))
        (block_shift_of 4) = calc_rsum_block (window [65, 66, 67, 68, 69, 70, 71, 72] (Suc 1) 4)
   \<and> slide_from [65, 66, 67, 68, 69, 70, 71, 72] 4 (block_shift_of 4) 0
        (calc_rsum_block (window [65, 66, 67, 68, 69, 70, 71, 72] 0 4)) (Suc 1)
        = calc_rsum_block (window [65, 66, 67, 68, 69, 70, 71, 72] (Suc 1) 4)"
  using rsum_slide_power_of_two[of 4 2 1 "[65, 66, 67, 68, 69, 70, 71, 72]"] by simp


text \<open>
  For a block size that is not a power of two the update subtracts
  \<open>oldc << _nBlockShift\<close> where the fresh sum needs \<open>blockSize * oldc\<close>: with block size
  3 the shift is 1, and on the buffer \<open>1, 0, 0, 0\<close> the slid sum differs from the fresh
  one.
\<close>

theorem rsum_slide_any_length_counterexample:
  "UPDATE_RSUM (calc_rsum_block (window [1, 0, 0, 0] 0 3)) ([1, 0, 0, 0] ! 0) ([1, 0, 0, 0] ! (0 + 3))
      (block_shift_of 3) \<noteq> calc_rsum_block (window [1, 0, 0, 0] (Suc 0) 3)"
  by (simp add: block_shift_of_3 window_def calc_rsum_block_def UPDATE_RSUM_16)

section \<open>The size of the hash tables\<close>

lemma push_bit_2_nat: "0 < i \<Longrightarrow> push_bit (i - Suc 0) (2::nat) = 2 ^ i"
  by (cases i) (simp_all add: push_bit_eq_mult)

lemma hash_exponent_props:
  "4 \<le> i \<Longrightarrow>
     4 \<le> hash_exponent i n \<and> hash_exponent i n \<le> i
     \<and> (4 < hash_exponent i n \<longrightarrow> 2 ^ hash_exponent i n \<le> n)
     \<and> (hash_exponent i n < i \<longrightarrow> n < 2 ^ (hash_exponent i n + 1))"
proof (induction i n rule: hash_exponent.induct)
  case (1 i n)
  have "0 < i" using "1.prems" by simp
  then have pb: "push_bit (i - Suc 0) (2::nat) = 2 ^ i" by (rule push_bit_2_nat)
  show ?case
  proof (cases "n < 2 ^ i \<and> 4 < i")
    case True
    then have eq: "hash_exponent i n = hash_exponent (i - 1) n"
      by (subst hash_exponent.simps) (simp add: pb)
    have ih: "4 \<le> hash_exponent (i - 1) n \<and> hash_exponent (i - 1) n \<le> i - 1
       \<and> (4 < hash_exponent (i - 1) n \<longrightarrow> 2 ^ hash_exponent (i - 1) n \<le> n)
       \<and> (hash_exponent (i - 1) n < i - 1 \<longrightarrow> n < 2 ^ (hash_exponent (i - 1) n + 1))"
    proof -
      have "4 \<le> i - 1" using True by linarith
      then show ?thesis using "1.IH" True pb by simp
    qed
    show ?thesis
    proof (cases "hash_exponent (i - 1) n = i - 1")
      case True
      with \<open>n < 2 ^ i \<and> 4 < i\<close> ih show ?thesis by (auto simp: eq)
    next
      case False
      with ih show ?thesis by (auto simp: eq)
    qed
  next
    case False
    then have eq: "hash_exponent i n = i"
      by (subst hash_exponent.simps) (auto simp add: pb)
    show ?thesis using False "1.prems" by (auto simp: eq)
  qed
qed

lemma build_fill_lengths:
  "build_fill j hm bm ids (bh, tab, bits) = (bh', tab', bits') \<Longrightarrow>
     length bh' = length bh \<and> length tab' = length tab \<and> length bits' = length bits"
proof (induction ids arbitrary: bh tab bits)
  case Nil then show ?case by simp
next
  case (Cons i ids)
  from Cons.prems show ?case
    by (simp add: Let_def) (drule Cons.IH, simp)
qed

lemma mask_unat: "i \<le> 19 \<Longrightarrow> unat (push_bit i 2 - 1 :: 32 word) = 2 ^ (i + 1) - 1"
proof -
  assume i: "i \<le> 19"
  have m: "min 32 (Suc i) = Suc i" using i by simp
  have "(push_bit i 2 - 1 :: 32 word) = mask (Suc i)"
    by (simp add: mask_eq_exp_minus_1 push_bit_eq_mult)
  then have "uint (push_bit i 2 - 1 :: 32 word) = mask (Suc i)"
    using m by (simp add: uint_mask_eq)
  then have "unat (push_bit i 2 - 1 :: 32 word) = nat (mask (Suc i))"
    by (simp only: unat_eq_nat_uint)
  also have "\<dots> = 2 ^ (i + 1) - 1"
  proof -
    have "(mask (Suc i) :: int) = int (2 ^ (i + 1) - 1)"
      by (simp add: mask_eq_exp_minus_1 of_nat_diff)
    then show ?thesis by (simp only: nat_int)
  qed
  finally show ?thesis .
qed

lemma hash_exponent_16_1: "hash_exponent 16 1 = 4"
  apply (subst hash_exponent.simps, simp add: push_bit_eq_mult)+
  done

lemma hash_exponent_16_100: "hash_exponent 16 100 = 6"
  by (simp add: hash_exponent.simps push_bit_eq_mult)

text \<open>
  Claim C8, as the code has it. The loop of \<open>buildHash\<close> steps \<open>i\<close> down from 16 while
  \<open>2 ^ i\<close> exceeds the number of blocks and \<open>i\<close> exceeds 4. So the exponent lies between 4
  and 16; above 4 it satisfies \<open>2 ^ i \<le> blocks\<close>, below 16 it is the largest such
  (\<open>blocks < 2 ^ (i + 1)\<close>). The masks are \<open>(2 << i) - 1\<close> and
  \<open>(2 << (i + BITHASHBITS)) - 1\<close>; the table of chain heads has \<open>_pHashMask + 1\<close> entries
  and the bit table has \<open>_pBitHashMask + 1\<close> bytes.
\<close>

theorem buildHash_exponent_and_sizes:
  "(let i = hash_exponent 16 (nBlocks j); st' = snd (buildHash j st)
    in 4 \<le> i \<and> i \<le> 16
       \<and> (4 < i \<longrightarrow> 2 ^ i \<le> nBlocks j)
       \<and> (i < 16 \<longrightarrow> nBlocks j < 2 ^ (i + 1))
       \<and> pHashMask st' = push_bit i 2 - 1
       \<and> pBitHashMask st' = push_bit (i + BITHASHBITS) 2 - 1
       \<and> length (pRsumHash st') = unat (pHashMask st') + 1
       \<and> length (pBitHash st') = unat (pBitHashMask st') + 1
       \<and> unat (pHashMask st') = 2 ^ (i + 1) - 1
       \<and> unat (pBitHashMask st') = 2 ^ (i + 4) - 1)"
proof -
  let ?i = "hash_exponent 16 (nBlocks j)"
  have p: "4 \<le> ?i \<and> ?i \<le> 16 \<and> (4 < ?i \<longrightarrow> 2 ^ ?i \<le> nBlocks j)
     \<and> (?i < 16 \<longrightarrow> nBlocks j < 2 ^ (?i + 1))"
    using hash_exponent_props[of 16 "nBlocks j"] by simp
  obtain bh' tab' bits' where bf:
    "build_fill j (push_bit ?i 2 - 1) (push_bit (?i + BITHASHBITS) 2 - 1) (rev [0..<nBlocks j])
       (pBlockHashes st, replicate (unat (push_bit ?i 2 - 1 :: 32 word) + 1) None,
        replicate (unat (push_bit (?i + BITHASHBITS) 2 - 1 :: 32 word) + 1) 0) = (bh', tab', bits')"
    by (metis prod_cases3)
  note l = build_fill_lengths[OF bf]
  have m1: "unat (push_bit ?i 2 - 1 :: 32 word) = 2 ^ (?i + 1) - 1"
    using p by (intro mask_unat) simp
  have m2: "unat (push_bit (?i + BITHASHBITS) 2 - 1 :: 32 word) = 2 ^ (?i + 4) - 1"
    using p mask_unat[of "?i + 3"] by (simp add: BITHASHBITS_def ac_simps)
  have st': "snd (buildHash j st) =
     st\<lparr>pBlockHashes := bh', pRsumHash := tab', pBitHash := bits',
        pHashMask := push_bit ?i 2 - 1, pBitHashMask := push_bit (?i + BITHASHBITS) 2 - 1\<rparr>"
    unfolding buildHash_def Let_def bf by simp
  have "length (pRsumHash (snd (buildHash j st))) = unat (pHashMask (snd (buildHash j st))) + 1"
    using l by (simp add: st')
  moreover have "length (pBitHash (snd (buildHash j st))) = unat (pBitHashMask (snd (buildHash j st))) + 1"
    using l by (simp add: st')
  moreover have "unat (pHashMask (snd (buildHash j st))) = 2 ^ (?i + 1) - 1"
    using m1 by (simp add: st')
  moreover have "unat (pBitHashMask (snd (buildHash j st))) = 2 ^ (?i + 4) - 1"
    using m2 by (simp add: st')
  moreover have "pHashMask (snd (buildHash j st)) = push_bit ?i 2 - 1"
    by (simp add: st')
  moreover have "pBitHashMask (snd (buildHash j st)) = push_bit (?i + BITHASHBITS) 2 - 1"
    by (simp add: st')
  ultimately show ?thesis
    unfolding Let_def using p by blast
qed

theorem buildHash_exponent_and_sizes_witness:
  "nBlocks (job_of (example_information 4 100 2 16 [] [])) = 100
   \<and> hash_exponent 16 100 = 6 \<and> (4::nat) < 6 \<and> (6::nat) < 16
   \<and> (2::nat) ^ 6 \<le> 100 \<and> (100::nat) < 2 ^ (6 + 1)
   \<and> length (pRsumHash (snd (buildHash (job_of (example_information 4 100 2 16 [] []))
                                (init_state (example_information 4 100 2 16 [] []))))) = 128
   \<and> length (pBitHash (snd (buildHash (job_of (example_information 4 100 2 16 [] []))
                               (init_state (example_information 4 100 2 16 [] []))))) = 1024"
proof -
  have n: "nBlocks (job_of (example_information 4 100 2 16 [] [])) = 100"
    by (simp add: job_of_def example_information_def)
  show ?thesis
    using buildHash_exponent_and_sizes
            [of "job_of (example_information 4 100 2 16 [] [])"
                "init_state (example_information 4 100 2 16 [] [])"]
    by (simp add: n hash_exponent_16_100 Let_def BITHASHBITS_def)
qed

text \<open>
  The claim's description of the exponent, the largest \<open>i\<close> between 4 and 16 with
  \<open>2 ^ (i + 1) \<ge> blocks\<close>, is not what the loop computes: for one block the loop ends
  with 4, while 16 lies in the interval and satisfies \<open>2 ^ 17 \<ge> 1\<close>.
\<close>

theorem buildHash_exponent_counterexample:
  "hash_exponent 16 1 = 4 \<and> (4::nat) \<le> 16 \<and> (16::nat) \<le> 16 \<and> (1::nat) \<le> 2 ^ (16 + 1)"
  using hash_exponent_16_1 by simp

section \<open>Errors of the checksum stream\<close>













section \<open>The known ranges\<close>

lemma ranges_mono:
  assumes "\<forall>i < n. range_lo R i \<le> range_hi R i"
      and "\<forall>i. Suc i < n \<longrightarrow> range_hi R i + 1 < range_lo R (Suc i)"
  shows "i < k \<Longrightarrow> k < n \<Longrightarrow> range_hi R i + 1 < range_lo R k"
proof (induction k)
  case 0 then show ?case by simp
next
  case (Suc k)
  show ?case
  proof (cases "i = k")
    case True then show ?thesis using assms(2) Suc.prems by simp
  next
    case False
    then have "i < k" "k < n" using Suc.prems by simp_all
    then have "range_hi R i + 1 < range_lo R k" by (rule Suc.IH)
    moreover have "range_lo R k \<le> range_hi R k" using assms(1) \<open>k < n\<close> by simp
    moreover have "range_hi R k + 1 < range_lo R (Suc k)" using assms(2) Suc.prems by simp
    ultimately show ?thesis by simp
  qed
qed

lemma ranges_mono_hi:
  assumes "\<forall>i < n. range_lo R i \<le> range_hi R i"
      and "\<forall>i. Suc i < n \<longrightarrow> range_hi R i + 1 < range_lo R (Suc i)"
      and "i \<le> k" "k < n"
  shows "range_hi R i \<le> range_hi R k"
proof (cases "i = k")
  case True then show ?thesis by simp
next
  case False
  then have "i < k" using assms(3) by simp
  from ranges_mono[OF assms(1,2) this assms(4)] assms(1) assms(4) show ?thesis by force
qed

lemma ranges_mono_lo:
  assumes "\<forall>i < n. range_lo R i \<le> range_hi R i"
      and "\<forall>i. Suc i < n \<longrightarrow> range_hi R i + 1 < range_lo R (Suc i)"
      and "i \<le> k" "k < n"
  shows "range_lo R i \<le> range_lo R k"
proof (cases "i = k")
  case True then show ?thesis by simp
next
  case False
  then have "i < k" using assms(3) by simp
  then have "i < n" using assms(4) by simp
  from ranges_mono[OF assms(1,2) \<open>i < k\<close> assms(4)] assms(1) \<open>i < n\<close> show ?thesis by force
qed

lemma rangeBefore_loop_post:
  "\<forall>i < n. range_lo R i \<le> range_hi R i
   \<Longrightarrow> \<forall>i. Suc i < n \<longrightarrow> range_hi R i + 1 < range_lo R (Suc i)
   \<Longrightarrow> 0 \<le> mn \<Longrightarrow> mx < int n \<Longrightarrow> mn \<le> mx + 1
   \<Longrightarrow> \<forall>i. int i < mn \<longrightarrow> range_hi R i < x
   \<Longrightarrow> \<forall>i. mx < int i \<and> i < n \<longrightarrow> x < range_lo R i
   \<Longrightarrow> rb_post R n x (rangeBefore_loop R x mn mx)"
proof (induction R x mn mx rule: rangeBefore_loop.induct)
  case (1 R x mn mx)
  note lohi = "1.prems"(1) and gap = "1.prems"(2)
  show ?case
  proof (cases "mn \<le> mx")
    case False
    then have "rangeBefore_loop R x mn mx = mn" by (subst rangeBefore_loop.simps) simp
    moreover have "mn = mx + 1" using False "1.prems" by simp
    ultimately show ?thesis using "1.prems" by (auto simp: rb_post_def)
  next
    case True
    let ?r = "(mx + mn) div 2"
    define k where "k = nat ?r"
    have r: "mn \<le> ?r" "?r \<le> mx" using True by simp_all
    have k: "int k = ?r" "k < n" using r "1.prems" by (simp_all add: k_def)
    have i1: "nat (2 * ?r + 1) = 2 * k + 1" and i0: "nat (2 * ?r) = 2 * k"
      using k(1) by (simp_all add: nat_add_distrib nat_mult_distrib)
    have hi: "R ! nat (2 * ?r + 1) = range_hi R k" by (simp only: i1 range_hi_def)
    have lo: "R ! nat (2 * ?r) = range_lo R k" by (simp only: i0 range_lo_def)
    show ?thesis
    proof (cases "x > range_hi R k")
      case gt: True
      have eq: "rangeBefore_loop R x mn mx = rangeBefore_loop R x (?r + 1) mx"
        using True gt by (subst rangeBefore_loop.simps) (simp add: Let_def hi)
      have a: "\<forall>i. int i < ?r + 1 \<longrightarrow> range_hi R i < x"
      proof (intro allI impI)
        fix i assume "int i < ?r + 1"
        then have "i \<le> k" using k(1) by linarith
        from ranges_mono_hi[OF lohi gap this k(2)] gt show "range_hi R i < x" by linarith
      qed
      have b: "0 \<le> ?r + 1" "?r + 1 \<le> mx + 1" using r "1.prems" by linarith+
      have c: "R ! nat (2 * ?r + 1) < x" using gt hi by simp
      have "rb_post R n x (rangeBefore_loop R x (?r + 1) mx)"
        by (rule "1.IH"(1)[OF True refl c lohi gap b(1) "1.prems"(4) b(2) a "1.prems"(7)])
      then show ?thesis by (simp only: eq)
    next
      case ngt: False
      show ?thesis
      proof (cases "x < range_lo R k")
        case lt: True
        have eq: "rangeBefore_loop R x mn mx = rangeBefore_loop R x mn (?r - 1)"
          using True ngt lt by (subst rangeBefore_loop.simps) (simp add: Let_def hi lo)
        have a: "\<forall>i. ?r - 1 < int i \<and> i < n \<longrightarrow> x < range_lo R i"
        proof (intro allI impI)
          fix i assume a: "?r - 1 < int i \<and> i < n"
          then have "k \<le> i" "i < n" using k(1) by linarith+
          from ranges_mono_lo[OF lohi gap this] lt show "x < range_lo R i" by linarith
        qed
        have b: "?r - 1 < int n" "mn \<le> ?r - 1 + 1" using r "1.prems" by linarith+
        have c: "\<not> R ! nat (2 * ?r + 1) < x" using ngt hi by simp
        have d: "x < R ! nat (2 * ?r)" using lt lo by simp
        have "rb_post R n x (rangeBefore_loop R x mn (?r - 1))"
          by (rule "1.IH"(2)[OF True refl c d lohi gap "1.prems"(3) b(1) b(2) "1.prems"(6) a])
        then show ?thesis by (simp only: eq)
      next
        case nlt: False
        have eq: "rangeBefore_loop R x mn mx = - 1"
          using True ngt nlt by (subst rangeBefore_loop.simps) (simp add: Let_def hi lo)
        show ?thesis using ngt nlt k(2) by (auto simp: eq rb_post_def)
      qed
    qed
  qed
qed


lemma rangeBeforeBlock_post:
  assumes "ranges_inv st"
  shows "rb_post (pRanges st) (nRanges st) x (rangeBeforeBlock st x)"
  unfolding rangeBeforeBlock_def
  using assms
  by (intro rangeBefore_loop_post) (simp_all add: ranges_inv_def)

lemma rb_post_known:
  assumes "rb_post (pRanges st) (nRanges st) x r"
  shows "(r = - 1) = (x \<in> known st)"
proof
  assume "r = - 1"
  with assms show "x \<in> known st" by (auto simp: rb_post_def known_def)
next
  assume k: "x \<in> known st"
  then obtain i where i: "i < nRanges st" "range_lo (pRanges st) i \<le> x" "x \<le> range_hi (pRanges st) i"
    by (auto simp: known_def)
  show "r = - 1"
  proof (rule ccontr)
    assume "r \<noteq> - 1"
    with assms have p: "\<forall>i. int i < r \<longrightarrow> range_hi (pRanges st) i < x"
       "\<forall>i. r \<le> int i \<and> i < nRanges st \<longrightarrow> x < range_lo (pRanges st) i"
      by (auto simp: rb_post_def)
    show False
    proof (cases "int i < r")
      case True with p(1) i(3) show False by force
    next
      case False
      then have "r \<le> int i" by simp
      with p(2) i(1,2) show False by force
    qed
  qed
qed

lemma memmove_list_length:
  "src + cnt \<le> length a \<Longrightarrow> dst + cnt \<le> length a \<Longrightarrow> length (memmove_list a dst src cnt) = length a"
  by (simp add: memmove_list_def)

lemma memmove_list_nth:
  assumes "src + cnt \<le> length a" "dst + cnt \<le> length a" "i < length a"
  shows "memmove_list a dst src cnt ! i
           = (if dst \<le> i \<and> i < dst + cnt then a ! (src + (i - dst)) else a ! i)"
proof -
  have l1: "length (take dst a) = dst" using assms by simp
  have l2: "length (take cnt (drop src a)) = cnt" using assms by simp
  have m: "memmove_list a dst src cnt = take dst a @ (take cnt (drop src a) @ drop (dst + cnt) a)"
    by (simp add: memmove_list_def)
  show ?thesis
  proof (cases "i < dst")
    case True
    then show ?thesis using assms by (simp add: m nth_append)
  next
    case False
    then have 1: "memmove_list a dst src cnt ! i = (take cnt (drop src a) @ drop (dst + cnt) a) ! (i - dst)"
      by (simp only: m nth_append l1 if_False)
    show ?thesis
    proof (cases "i < dst + cnt")
      case True
      then have c: "i - dst < cnt" using False by linarith
      have "(take cnt (drop src a) @ drop (dst + cnt) a) ! (i - dst) = take cnt (drop src a) ! (i - dst)"
        using c by (simp only: nth_append l2 if_True)
      also have "\<dots> = a ! (src + (i - dst))"
        using c assms by simp
      finally show ?thesis using 1 True False by simp
    next
      case b: False
      then have c: "\<not> i - dst < cnt" using False by linarith
      have e: "dst + cnt + (i - dst - cnt) = i" using b False by linarith
      have "(take cnt (drop src a) @ drop (dst + cnt) a) ! (i - dst) = drop (dst + cnt) a ! (i - dst - cnt)"
        using c by (simp only: nth_append l2 if_False)
      also have "\<dots> = a ! i"
        using assms e by simp
      finally show ?thesis using 1 b False by simp
    qed
  qed
qed

lemma realloc_list_length: "length (realloc_list a k) = k"
  by (simp add: realloc_list_def)

lemma realloc_list_nth: "i < length a \<Longrightarrow> i < k \<Longrightarrow> realloc_list a k ! i = a ! i"
  by (simp add: realloc_list_def nth_append)

lemma addToRanges_covered:
  "rangeBeforeBlock st x = - 1 \<Longrightarrow> addToRanges st x = st"
  by (simp add: addToRanges_def Let_def)

lemma known_iff:
  "y \<in> known st \<longleftrightarrow> (\<exists>i < nRanges st. range_lo (pRanges st) i \<le> y \<and> y \<le> range_hi (pRanges st) i)"
  by (auto simp: known_def)

text \<open>Merging two ranges.\<close>

lemma ranges_merge:
  assumes inv: "ranges_inv st"
      and k: "k = Suc k'" "k < nRanges st"
      and m1: "range_hi (pRanges st) k' = x - 1"
      and m2: "range_lo (pRanges st) k = x + 1"
      and st': "st' = st\<lparr>pRanges := memmove_list ((pRanges st)[2 * (k - 1) + 1 := pRanges st ! (2 * k + 1)])
                                       (2 * k) (2 * k + 2) ((nRanges st - k - 1) * 2),
                        nRanges := nRanges st - 1\<rparr>"
  shows "ranges_inv st' \<and> known st' = insert x (known st)"
proof -
  let ?R = "pRanges st" and ?n = "nRanges st"
  let ?R1 = "?R[2 * (k - 1) + 1 := ?R ! (2 * k + 1)]"
  let ?R' = "memmove_list ?R1 (2 * k) (2 * k + 2) ((?n - k - 1) * 2)"
  have len: "2 * ?n \<le> length ?R" using inv by (simp add: ranges_inv_def)
  have lohi: "\<And>i. i < ?n \<Longrightarrow> range_lo ?R i \<le> range_hi ?R i"
    using inv by (simp add: ranges_inv_def)
  have gap: "\<And>i. Suc i < ?n \<Longrightarrow> range_hi ?R i + 1 < range_lo ?R (Suc i)"
    using inv by (simp add: ranges_inv_def)
  have b1: "2 * k + 2 + (?n - k - 1) * 2 \<le> length ?R1" using len k by simp
  have b2: "2 * k + (?n - k - 1) * 2 \<le> length ?R1" using len k by simp
  have len': "length ?R' = length ?R"
    using memmove_list_length[OF b1 b2] by simp
  have nth': "\<And>j. j < 2 * (?n - 1) \<Longrightarrow> ?R' ! j = (if 2 * k \<le> j then ?R1 ! (j + 2) else ?R1 ! j)"
  proof -
    fix j assume j: "j < 2 * (?n - 1)"
    then have jl: "j < length ?R1" using len by simp
    have c: "j < 2 * k + (?n - k - 1) * 2" using j k by simp
    have "2 * k \<le> j \<Longrightarrow> 2 * k + 2 + (j - 2 * k) = j + 2" by simp
    then show "?R' ! j = (if 2 * k \<le> j then ?R1 ! (j + 2) else ?R1 ! j)"
      using memmove_list_nth[OF b1 b2 jl] c by simp
  qed
  have lo': "\<And>i. i < ?n - 1 \<Longrightarrow> range_lo ?R' i = (if i \<le> k' then range_lo ?R i else range_lo ?R (Suc i))"
  proof -
    fix i assume i: "i < ?n - 1"
    then have "2 * i < 2 * (?n - 1)" by simp
    from nth'[OF this] have "?R' ! (2 * i) = (if k \<le> i then ?R1 ! (2 * i + 2) else ?R1 ! (2 * i))"
      by simp
    moreover have "2 * i + 2 \<noteq> 2 * (k - 1) + 1" "2 * i \<noteq> 2 * (k - 1) + 1" by presburger+
    ultimately show "range_lo ?R' i = (if i \<le> k' then range_lo ?R i else range_lo ?R (Suc i))"
      using k(1) by (auto simp: range_lo_def)
  qed
  have hi': "\<And>i. i < ?n - 1 \<Longrightarrow> range_hi ?R' i = (if i < k' then range_hi ?R i else range_hi ?R (Suc i))"
  proof -
    fix i assume i: "i < ?n - 1"
    then have "2 * i + 1 < 2 * (?n - 1)" by simp
    from nth'[OF this] have 1: "?R' ! (2 * i + 1) = (if k \<le> i then ?R1 ! (2 * i + 3) else ?R1 ! (2 * i + 1))"
      by (simp add: numeral_3_eq_3) 
    have 2: "2 * k' + 1 < length ?R" using k len by simp
    show "range_hi ?R' i = (if i < k' then range_hi ?R i else range_hi ?R (Suc i))"
    proof (cases "k \<le> i")
      case True
      then have "2 * i + 3 \<noteq> 2 * (k - 1) + 1" using k(1) by simp
      then show ?thesis using True 1 k(1) by (simp add: range_hi_def numeral_3_eq_3)
    next
      case False
      show ?thesis
      proof (cases "i < k'")
        case True
        then show ?thesis using False 1 2 k(1) by (simp add: range_hi_def nth_list_update)
      next
        case nlt: False
        then have "i = k'" using False k(1) by linarith
        then show ?thesis using False 1 2 k(1) by (simp add: range_hi_def nth_list_update)
      qed
    qed
  qed
  have n': "nRanges st' = ?n - 1" and R': "pRanges st' = ?R'" by (simp_all add: st')
  have i1: "\<forall>i < ?n - 1. range_lo ?R' i \<le> range_hi ?R' i"
  proof (intro allI impI)
    fix i assume i: "i < ?n - 1"
    consider "i < k'" | "i = k'" | "k' < i" by linarith
    then show "range_lo ?R' i \<le> range_hi ?R' i"
    proof cases
      case 1 then show ?thesis using lo'[OF i] hi'[OF i] lohi[of i] i by simp
    next
      case 2
      have "range_lo ?R k' \<le> range_hi ?R k'" using lohi[of k'] k by simp
      moreover have "range_lo ?R k \<le> range_hi ?R k" using lohi[of k] k by simp
      ultimately show ?thesis using lo'[OF i] hi'[OF i] 2 m1 m2 k(1) by simp
    next
      case 3 then show ?thesis using lo'[OF i] hi'[OF i] lohi[of "Suc i"] i by simp
    qed
  qed
  have i2: "\<forall>i. Suc i < ?n - 1 \<longrightarrow> range_hi ?R' i + 1 < range_lo ?R' (Suc i)"
  proof (intro allI impI)
    fix i assume i: "Suc i < ?n - 1"
    then have i0: "i < ?n - 1" by simp
    show "range_hi ?R' i + 1 < range_lo ?R' (Suc i)"
    proof (cases "i < k'")
      case True then show ?thesis using lo'[OF i] hi'[OF i0] gap[of i] i by simp
    next
      case False then show ?thesis using lo'[OF i] hi'[OF i0] gap[of "Suc i"] i by simp
    qed
  qed
  have inv': "ranges_inv st'"
    using i1 i2 len len' by (simp add: ranges_inv_def n' R')
  have kn: "known st' = insert x (known st)"
  proof (rule set_eqI)
    fix y
    show "y \<in> known st' \<longleftrightarrow> y \<in> insert x (known st)"
    proof
      assume "y \<in> known st'"
      then obtain i where i: "i < ?n - 1" "range_lo ?R' i \<le> y" "y \<le> range_hi ?R' i"
        by (auto simp: known_iff n' R')
      consider "i < k'" | "i = k'" | "k' < i" by linarith
      then show "y \<in> insert x (known st)"
      proof cases
        case 1
        then have "range_lo ?R i \<le> y \<and> y \<le> range_hi ?R i" using i lo'[OF i(1)] hi'[OF i(1)] by simp
        then show ?thesis using i(1) by (auto simp: known_iff)
      next
        case 2
        then have a: "range_lo ?R k' \<le> y" "y \<le> range_hi ?R k"
          using i lo'[OF i(1)] hi'[OF i(1)] k(1) by simp_all
        consider "y \<le> x - 1" | "y = x" | "x + 1 \<le> y" by linarith
        then show ?thesis
        proof cases
          case 1
          then have "range_lo ?R k' \<le> y \<and> y \<le> range_hi ?R k'" using a m1 by simp
          moreover have "k' < ?n" using k by simp
          ultimately show ?thesis by (auto simp: known_iff)
        next
          case 2 then show ?thesis by simp
        next
          case 3
          then have "range_lo ?R k \<le> y \<and> y \<le> range_hi ?R k" using a m2 by simp
          then show ?thesis using k(2) by (auto simp: known_iff)
        qed
      next
        case 3
        then have "range_lo ?R (Suc i) \<le> y \<and> y \<le> range_hi ?R (Suc i)"
          using i lo'[OF i(1)] hi'[OF i(1)] by simp
        moreover have "Suc i < ?n" using i(1) by simp
        ultimately show ?thesis by (auto simp: known_iff)
      qed
    next
      assume "y \<in> insert x (known st)"
      then consider "y = x" | "y \<in> known st" by auto
      then show "y \<in> known st'"
      proof cases
        case 1
        have kk: "k' < ?n - 1" using k by simp
        have "range_lo ?R k' \<le> range_hi ?R k'" using lohi[of k'] k by simp
        moreover have "range_lo ?R k \<le> range_hi ?R k" using lohi[of k] k by simp
        ultimately have "range_lo ?R' k' \<le> x \<and> x \<le> range_hi ?R' k'"
          using lo'[OF kk] hi'[OF kk] m1 m2 k(1) by simp
        then show ?thesis using kk 1 by (auto simp: known_iff n' R')
      next
        case 2
        then obtain i where i: "i < ?n" "range_lo ?R i \<le> y" "y \<le> range_hi ?R i"
          by (auto simp: known_iff)
        have kk: "k' < ?n - 1" using k by simp
        consider "i < k'" | "i = k'" | "i = k" | "k < i" using k(1) by linarith
        then show ?thesis
        proof cases
          case 1
          then have ii: "i < ?n - 1" using kk by simp
          have "range_lo ?R' i \<le> y \<and> y \<le> range_hi ?R' i"
            using lo'[OF ii] hi'[OF ii] 1 i by simp
          then show ?thesis using ii by (auto simp: known_iff n' R')
        next
          case 2
          have "range_lo ?R k \<le> range_hi ?R k" using lohi[of k] k by simp
          then have "range_lo ?R' k' \<le> y \<and> y \<le> range_hi ?R' k'"
            using lo'[OF kk] hi'[OF kk] 2 i m1 m2 k(1) by simp
          then show ?thesis using kk by (auto simp: known_iff n' R')
        next
          case 3
          have "range_lo ?R k' \<le> range_hi ?R k'" using lohi[of k'] k by simp
          then have "range_lo ?R' k' \<le> y \<and> y \<le> range_hi ?R' k'"
            using lo'[OF kk] hi'[OF kk] 3 i m1 m2 k(1) by simp
          then show ?thesis using kk by (auto simp: known_iff n' R')
        next
          case 4
          then obtain i' where i': "i = Suc i'" by (cases i) auto
          then have ii: "i' < ?n - 1" "k' < i'" using i(1) 4 k(1) by simp_all
          have "range_lo ?R' i' \<le> y \<and> y \<le> range_hi ?R' i'"
            using lo'[OF ii(1)] hi'[OF ii(1)] ii(2) i i' by simp
          then show ?thesis using ii(1) by (auto simp: known_iff n' R')
        qed
      qed
    qed
  qed
  show ?thesis using inv' kn by simp
qed

text \<open>Extending a range at its upper or lower end.\<close>

lemma ranges_extend_below:
  assumes inv: "ranges_inv st"
      and k: "k = Suc k'" "k \<le> nRanges st"
      and m1: "range_hi (pRanges st) k' = x - 1"
      and above: "k < nRanges st \<Longrightarrow> x + 1 < range_lo (pRanges st) k"
      and st': "st' = st\<lparr>pRanges := (pRanges st)[2 * (k - 1) + 1 := x]\<rparr>"
  shows "ranges_inv st' \<and> known st' = insert x (known st)"
proof -
  let ?R = "pRanges st" and ?n = "nRanges st"
  define R' where "R' = ?R[2 * (k - 1) + 1 := x]"
  have len: "2 * ?n \<le> length ?R" using inv by (simp add: ranges_inv_def)
  have lohi: "\<And>i. i < ?n \<Longrightarrow> range_lo ?R i \<le> range_hi ?R i"
    using inv by (simp add: ranges_inv_def)
  have gap: "\<And>i. Suc i < ?n \<Longrightarrow> range_hi ?R i + 1 < range_lo ?R (Suc i)"
    using inv by (simp add: ranges_inv_def)
  have kl: "2 * k' + 1 < length ?R" using k len by simp
  have lo': "\<And>i. range_lo R' i = range_lo ?R i"
  proof -
    fix i
    have "2 * i \<noteq> 2 * (k - 1) + 1" by presburger
    then show "range_lo R' i = range_lo ?R i" by (simp add: range_lo_def R'_def)
  qed
  have hi': "\<And>i. range_hi R' i = (if i = k' then x else range_hi ?R i)"
    using kl k(1) by (simp add: range_hi_def nth_list_update R'_def)
  have n': "nRanges st' = ?n" and R': "pRanges st' = R'" by (simp_all add: st' R'_def)
  have i1: "\<forall>i < ?n. range_lo R' i \<le> range_hi R' i"
  proof (intro allI impI)
    fix i assume i: "i < ?n"
    show "range_lo R' i \<le> range_hi R' i"
    proof (cases "i = k'")
      case True
      have "range_lo ?R k' \<le> range_hi ?R k'" using lohi[of k'] k by simp
      then show ?thesis using True m1 by (simp add: lo' hi')
    next
      case False then show ?thesis using lohi[OF i] by (simp add: lo' hi')
    qed
  qed
  have i2: "\<forall>i. Suc i < ?n \<longrightarrow> range_hi R' i + 1 < range_lo R' (Suc i)"
  proof (intro allI impI)
    fix i assume i: "Suc i < ?n"
    show "range_hi R' i + 1 < range_lo R' (Suc i)"
    proof (cases "i = k'")
      case True
      then have "k < ?n" using i k(1) by simp
      from above[OF this] show ?thesis using True k(1) by (simp add: lo' hi')
    next
      case False then show ?thesis using gap[OF i] by (simp add: lo' hi')
    qed
  qed
  have inv': "ranges_inv st'"
    using i1 i2 len by (simp add: ranges_inv_def n' R') (simp add: R'_def)
  have kn: "known st' = insert x (known st)"
  proof (rule set_eqI)
    fix y
    show "y \<in> known st' \<longleftrightarrow> y \<in> insert x (known st)"
    proof
      assume "y \<in> known st'"
      then obtain i where i: "i < ?n" "range_lo ?R i \<le> y" "y \<le> range_hi R' i"
        by (auto simp: known_iff n' R' lo')
      show "y \<in> insert x (known st)"
      proof (cases "i = k' \<and> y = x")
        case True then show ?thesis by simp
      next
        case False
        then have "y \<le> range_hi ?R i" using i(3) m1 by (auto simp: hi' split: if_splits)
        then show ?thesis using i(1,2) by (auto simp: known_iff)
      qed
    next
      assume "y \<in> insert x (known st)"
      then consider "y = x" | "y \<in> known st" by auto
      then show "y \<in> known st'"
      proof cases
        case 1
        have "range_lo ?R k' \<le> range_hi ?R k'" using lohi[of k'] k by simp
        then have "range_lo R' k' \<le> x \<and> x \<le> range_hi R' k'" using m1 by (simp add: lo' hi')
        moreover have "k' < ?n" using k by simp
        ultimately show ?thesis using 1 by (auto simp: known_iff n' R')
      next
        case 2
        then obtain i where i: "i < ?n" "range_lo ?R i \<le> y" "y \<le> range_hi ?R i"
          by (auto simp: known_iff)
        have "i = k' \<Longrightarrow> y \<le> x" using i(3) m1 by auto
        then have "range_lo R' i \<le> y \<and> y \<le> range_hi R' i"
          using i by (simp add: lo' hi')
        then show ?thesis using i(1) by (auto simp: known_iff n' R')
      qed
    qed
  qed
  show ?thesis using inv' kn by simp
qed

lemma ranges_extend_above:
  assumes inv: "ranges_inv st"
      and k: "k < nRanges st"
      and m2: "range_lo (pRanges st) k = x + 1"
      and below: "\<And>k'. k = Suc k' \<Longrightarrow> range_hi (pRanges st) k' + 1 < x"
      and st': "st' = st\<lparr>pRanges := (pRanges st)[2 * k := x]\<rparr>"
  shows "ranges_inv st' \<and> known st' = insert x (known st)"
proof -
  let ?R = "pRanges st" and ?n = "nRanges st"
  define R' where "R' = ?R[2 * k := x]"
  have len: "2 * ?n \<le> length ?R" using inv by (simp add: ranges_inv_def)
  have lohi: "\<And>i. i < ?n \<Longrightarrow> range_lo ?R i \<le> range_hi ?R i"
    using inv by (simp add: ranges_inv_def)
  have gap: "\<And>i. Suc i < ?n \<Longrightarrow> range_hi ?R i + 1 < range_lo ?R (Suc i)"
    using inv by (simp add: ranges_inv_def)
  have kl: "2 * k < length ?R" using k len by simp
  have hi': "\<And>i. range_hi R' i = range_hi ?R i"
  proof -
    fix i
    have "2 * i + 1 \<noteq> 2 * k" by presburger
    then show "range_hi R' i = range_hi ?R i" by (simp add: range_hi_def R'_def)
  qed
  have lo': "\<And>i. range_lo R' i = (if i = k then x else range_lo ?R i)"
    using kl by (simp add: range_lo_def nth_list_update R'_def)
  have n': "nRanges st' = ?n" and R': "pRanges st' = R'" by (simp_all add: st' R'_def)
  have i1: "\<forall>i < ?n. range_lo R' i \<le> range_hi R' i"
  proof (intro allI impI)
    fix i assume i: "i < ?n"
    show "range_lo R' i \<le> range_hi R' i"
    proof (cases "i = k")
      case True
      have "range_lo ?R k \<le> range_hi ?R k" using lohi[of k] k by simp
      then show ?thesis using True m2 by (simp add: lo' hi')
    next
      case False then show ?thesis using lohi[OF i] by (simp add: lo' hi')
    qed
  qed
  have i2: "\<forall>i. Suc i < ?n \<longrightarrow> range_hi R' i + 1 < range_lo R' (Suc i)"
  proof (intro allI impI)
    fix i assume i: "Suc i < ?n"
    show "range_hi R' i + 1 < range_lo R' (Suc i)"
    proof (cases "Suc i = k")
      case True
      from below[OF True[symmetric]] show ?thesis using True by (simp add: lo' hi')
    next
      case False then show ?thesis using gap[OF i] by (simp add: lo' hi')
    qed
  qed
  have inv': "ranges_inv st'"
    using i1 i2 len by (simp add: ranges_inv_def n' R') (simp add: R'_def)
  have kn: "known st' = insert x (known st)"
  proof (rule set_eqI)
    fix y
    show "y \<in> known st' \<longleftrightarrow> y \<in> insert x (known st)"
    proof
      assume "y \<in> known st'"
      then obtain i where i: "i < ?n" "range_lo R' i \<le> y" "y \<le> range_hi ?R i"
        by (auto simp: known_iff n' R' hi')
      show "y \<in> insert x (known st)"
      proof (cases "i = k \<and> y = x")
        case True then show ?thesis by simp
      next
        case False
        then have "range_lo ?R i \<le> y" using i(2) m2 by (auto simp: lo' split: if_splits)
        then show ?thesis using i(1,3) by (auto simp: known_iff)
      qed
    next
      assume "y \<in> insert x (known st)"
      then consider "y = x" | "y \<in> known st" by auto
      then show "y \<in> known st'"
      proof cases
        case 1
        have "range_lo ?R k \<le> range_hi ?R k" using lohi[of k] k by simp
        then have "range_lo R' k \<le> x \<and> x \<le> range_hi R' k" using m2 by (simp add: lo' hi')
        then show ?thesis using 1 k by (auto simp: known_iff n' R')
      next
        case 2
        then obtain i where i: "i < ?n" "range_lo ?R i \<le> y" "y \<le> range_hi ?R i"
          by (auto simp: known_iff)
        have "i = k \<Longrightarrow> x \<le> y" using i(2) m2 by auto
        then have "range_lo R' i \<le> y \<and> y \<le> range_hi R' i"
          using i by (simp add: lo' hi')
        then show ?thesis using i(1) by (auto simp: known_iff n' R')
      qed
    qed
  qed
  show ?thesis using inv' kn by simp
qed

text \<open>Inserting a new range.\<close>

lemma ranges_insert:
  assumes inv: "ranges_inv st"
      and k: "k \<le> nRanges st"
      and below: "\<And>k'. k = Suc k' \<Longrightarrow> range_hi (pRanges st) k' + 1 < x"
      and above: "k < nRanges st \<Longrightarrow> x + 1 < range_lo (pRanges st) k"
      and st': "st' = st\<lparr>pRanges := (memmove_list (realloc_list (pRanges st) ((nRanges st + 1) * 2))
                                         (2 * k + 2) (2 * k) ((nRanges st - k) * 2))
                                      [2 * k := x, 2 * k + 1 := x],
                        nRanges := nRanges st + 1\<rparr>"
  shows "ranges_inv st' \<and> known st' = insert x (known st)"
proof -
  let ?R = "pRanges st" and ?n = "nRanges st"
  define R1 where "R1 = realloc_list ?R ((?n + 1) * 2)"
  define R2 where "R2 = memmove_list R1 (2 * k + 2) (2 * k) ((?n - k) * 2)"
  define R' where "R' = R2[2 * k := x, 2 * k + 1 := x]"
  have len: "2 * ?n \<le> length ?R" using inv by (simp add: ranges_inv_def)
  have lohi: "\<And>i. i < ?n \<Longrightarrow> range_lo ?R i \<le> range_hi ?R i"
    using inv by (simp add: ranges_inv_def)
  have gap: "\<And>i. Suc i < ?n \<Longrightarrow> range_hi ?R i + 1 < range_lo ?R (Suc i)"
    using inv by (simp add: ranges_inv_def)
  have l1: "length R1 = 2 * ?n + 2" by (simp add: R1_def realloc_list_length)
  have n1: "\<And>j. j < 2 * ?n \<Longrightarrow> R1 ! j = ?R ! j"
    using len by (simp add: R1_def realloc_list_nth)
  have b1: "2 * k + (?n - k) * 2 \<le> length R1" using k by (simp add: l1)
  have b2: "2 * k + 2 + (?n - k) * 2 \<le> length R1" using k by (simp add: l1)
  have l2: "length R2 = 2 * ?n + 2"
    using memmove_list_length[OF b1 b2] by (simp add: R2_def l1)
  have n2: "\<And>j. j < 2 * ?n + 2 \<Longrightarrow> R2 ! j = (if 2 * k + 2 \<le> j then R1 ! (j - 2) else R1 ! j)"
  proof -
    fix j assume j: "j < 2 * ?n + 2"
    then have jl: "j < length R1" by (simp add: l1)
    have c: "j < 2 * k + 2 + (?n - k) * 2" using j k by simp
    have "2 * k + 2 \<le> j \<Longrightarrow> 2 * k + (j - (2 * k + 2)) = j - 2" by simp
    then show "R2 ! j = (if 2 * k + 2 \<le> j then R1 ! (j - 2) else R1 ! j)"
      using memmove_list_nth[OF b1 b2 jl] c by (simp add: R2_def)
  qed
  have l': "length R' = 2 * ?n + 2" by (simp add: R'_def l2)
  have lo': "\<And>i. i \<le> ?n \<Longrightarrow> range_lo R' i
                = (if i < k then range_lo ?R i else if i = k then x else range_lo ?R (i - 1))"
  proof -
    fix i assume i: "i \<le> ?n"
    have j: "2 * i < 2 * ?n + 2" using i by simp
    consider "i < k" | "i = k" | "k < i" by linarith
    then show "range_lo R' i = (if i < k then range_lo ?R i else if i = k then x else range_lo ?R (i - 1))"
    proof cases
      case 1
      then have "2 * i \<noteq> 2 * k" "2 * i \<noteq> 2 * k + 1" "\<not> 2 * k + 2 \<le> 2 * i" "2 * i < 2 * ?n"
        using k by simp_all
      then show ?thesis using 1 n2[OF j] n1[of "2 * i"] by (simp add: range_lo_def R'_def)
    next
      case 2
      then show ?thesis using j by (simp add: range_lo_def R'_def l2)
    next
      case 3
      then obtain i' where i': "i = Suc i'" by (cases i) auto
      have "2 * i \<noteq> 2 * k" "2 * i \<noteq> 2 * k + 1" "2 * k + 2 \<le> 2 * i" "2 * i - 2 < 2 * ?n"
        using 3 i by simp_all
      then show ?thesis using 3 n2[OF j] n1[of "2 * i - 2"] i' by (simp add: range_lo_def R'_def)
    qed
  qed
  have hi': "\<And>i. i \<le> ?n \<Longrightarrow> range_hi R' i
                = (if i < k then range_hi ?R i else if i = k then x else range_hi ?R (i - 1))"
  proof -
    fix i assume i: "i \<le> ?n"
    have j: "2 * i + 1 < 2 * ?n + 2" using i by simp
    consider "i < k" | "i = k" | "k < i" by linarith
    then show "range_hi R' i = (if i < k then range_hi ?R i else if i = k then x else range_hi ?R (i - 1))"
    proof cases
      case 1
      then have "2 * i + 1 \<noteq> 2 * k" "2 * i + 1 \<noteq> 2 * k + 1" "\<not> 2 * k + 2 \<le> 2 * i + 1" "2 * i + 1 < 2 * ?n"
        using k by simp_all
      then show ?thesis using 1 n2[OF j] n1[of "2 * i + 1"] by (simp add: range_hi_def R'_def)
    next
      case 2
      then show ?thesis using j by (simp add: range_hi_def R'_def l2)
    next
      case 3
      then obtain i' where i': "i = Suc i'" by (cases i) auto
      have "2 * i + 1 \<noteq> 2 * k" "2 * i + 1 \<noteq> 2 * k + 1" "2 * k + 2 \<le> 2 * i + 1" "2 * i + 1 - 2 < 2 * ?n"
        using 3 i by simp_all
      then show ?thesis using 3 n2[OF j] n1[of "2 * i + 1 - 2"] i' by (simp add: range_hi_def R'_def)
    qed
  qed
  have n': "nRanges st' = ?n + 1" and R': "pRanges st' = R'"
    by (simp_all add: st' R'_def R2_def R1_def)
  have i1: "\<forall>i < ?n + 1. range_lo R' i \<le> range_hi R' i"
  proof (intro allI impI)
    fix i assume "i < ?n + 1"
    then have i: "i \<le> ?n" by simp
    consider "i < k" | "i = k" | "k < i" by linarith
    then show "range_lo R' i \<le> range_hi R' i"
    proof cases
      case 1 then show ?thesis using lo'[OF i] hi'[OF i] lohi[of i] k by simp
    next
      case 2 then show ?thesis using lo'[OF i] hi'[OF i] by simp
    next
      case 3 then show ?thesis using lo'[OF i] hi'[OF i] lohi[of "i - 1"] i by simp
    qed
  qed
  have i2: "\<forall>i. Suc i < ?n + 1 \<longrightarrow> range_hi R' i + 1 < range_lo R' (Suc i)"
  proof (intro allI impI)
    fix i assume a: "Suc i < ?n + 1"
    then have i: "i \<le> ?n" "Suc i \<le> ?n" by simp_all
    consider "Suc i < k" | "Suc i = k" | "i = k" | "k < i" by linarith
    then show "range_hi R' i + 1 < range_lo R' (Suc i)"
    proof cases
      case 1 then show ?thesis using lo'[OF i(2)] hi'[OF i(1)] gap[of i] k by simp
    next
      case 2 then show ?thesis using lo'[OF i(2)] hi'[OF i(1)] below[of i] by simp
    next
      case 3
      then have "k < ?n" using i by simp
      from above[OF this] show ?thesis using 3 lo'[OF i(2)] hi'[OF i(1)] by simp
    next
      case 4
      then obtain i' where i': "i = Suc i'" by (cases i) auto
      then have "Suc i' < ?n" using i by simp
      from gap[OF this] show ?thesis using 4 i' lo'[OF i(2)] hi'[OF i(1)] by simp
    qed
  qed
  have inv': "ranges_inv st'"
    using i1 i2 l' by (simp add: ranges_inv_def n' R')
  have kn: "known st' = insert x (known st)"
  proof (rule set_eqI)
    fix y
    show "y \<in> known st' \<longleftrightarrow> y \<in> insert x (known st)"
    proof
      assume "y \<in> known st'"
      then obtain i where i0: "i < ?n + 1" and i23: "range_lo R' i \<le> y" "y \<le> range_hi R' i"
        by (auto simp: known_iff n' R')
      from i0 have "i \<le> ?n" by simp
      note i = this i23
      consider "i < k" | "i = k" | "k < i" by linarith
      then show "y \<in> insert x (known st)"
      proof cases
        case 1
        then have "range_lo ?R i \<le> y \<and> y \<le> range_hi ?R i" "i < ?n"
          using i lo'[OF i(1)] hi'[OF i(1)] k by simp_all
        then show ?thesis by (auto simp: known_iff)
      next
        case 2
        then have "y = x" using i lo'[OF i(1)] hi'[OF i(1)] by simp
        then show ?thesis by simp
      next
        case 3
        then have "range_lo ?R (i - 1) \<le> y \<and> y \<le> range_hi ?R (i - 1)" "i - 1 < ?n"
          using i lo'[OF i(1)] hi'[OF i(1)] by simp_all
        then show ?thesis by (auto simp: known_iff)
      qed
    next
      assume "y \<in> insert x (known st)"
      then consider "y = x" | "y \<in> known st" by auto
      then show "y \<in> known st'"
      proof cases
        case 1
        have "range_lo R' k \<le> x \<and> x \<le> range_hi R' k" using lo'[OF k] hi'[OF k] by simp
        moreover have "k < ?n + 1" using k by simp
        ultimately show ?thesis using 1 by (auto simp: known_iff n' R')
      next
        case 2
        then obtain i where i: "i < ?n" "range_lo ?R i \<le> y" "y \<le> range_hi ?R i"
          by (auto simp: known_iff)
        show ?thesis
        proof (cases "i < k")
          case True
          have ii: "i \<le> ?n" using i(1) by simp
          have "range_lo R' i \<le> y \<and> y \<le> range_hi R' i"
            using lo'[OF ii] hi'[OF ii] True i by simp
          moreover have "i < ?n + 1" using i(1) by simp
          ultimately show ?thesis by (auto simp: known_iff n' R')
        next
          case False
          have ii: "Suc i \<le> ?n" using i(1) by simp
          have "range_lo R' (Suc i) \<le> y \<and> y \<le> range_hi R' (Suc i)"
            using lo'[OF ii] hi'[OF ii] False i by simp
          moreover have "Suc i < ?n + 1" using i(1) by simp
          ultimately show ?thesis by (auto simp: known_iff n' R')
        qed
      qed
    qed
  qed
  show ?thesis using inv' kn by simp
qed


lemma ranges_inv_example:
  "ranges_inv (init_state (stream_information 8 None)\<lparr>pRanges := [0, 1, 5, 6], nRanges := 2\<rparr>)"
  by (simp add: ranges_inv_def range_lo_def range_hi_def less_Suc_eq numeral_2_eq_2)


lemma addToRanges_inv_known:
  assumes "ranges_inv st"
  shows "ranges_inv (addToRanges st x)
         \<and> known (addToRanges st x) = insert x (known st)
         \<and> (x \<in> known st \<longrightarrow> addToRanges st x = st)"
proof -
  let ?R = "pRanges st" and ?n = "nRanges st"
  let ?r = "rangeBeforeBlock st x"
  note post = rangeBeforeBlock_post[OF assms, of x]
  note kn = rb_post_known[OF post]
  show ?thesis
  proof (cases "?r = - 1")
    case True
    then have "addToRanges st x = st" by (rule addToRanges_covered)
    moreover have "x \<in> known st" using kn True by simp
    ultimately show ?thesis using assms by (simp add: insert_absorb)
  next
    case False
    then have nk: "x \<notin> known st" using kn by simp
    from post False have r: "0 \<le> ?r" "?r \<le> int ?n"
      and below: "\<forall>i. int i < ?r \<longrightarrow> range_hi ?R i < x"
      and above: "\<forall>i. ?r \<le> int i \<and> i < ?n \<longrightarrow> x < range_lo ?R i"
      by (auto simp: rb_post_def)
    define k where "k = nat ?r"
    have k: "int k = ?r" "k \<le> ?n" using r by (simp_all add: k_def)
    have bel: "\<And>k'. k = Suc k' \<Longrightarrow> range_hi ?R k' < x"
      using below k(1) by (metis lessI of_nat_less_iff)
    have abv: "k < ?n \<Longrightarrow> x < range_lo ?R k"
      using above k(1) by simp
    let ?c1 = "k > 0 \<and> k < ?n \<and> ?R ! (2 * (k - 1) + 1) = x - 1 \<and> ?R ! (2 * k) = x + 1"
    let ?c2 = "k > 0 \<and> ?n \<noteq> 0 \<and> ?R ! (2 * (k - 1) + 1) = x - 1"
    let ?c3 = "k < ?n \<and> ?R ! (2 * k) = x + 1"
    have good: "ranges_inv (addToRanges st x) \<and> known (addToRanges st x) = insert x (known st)"
    proof (cases ?c1)
      case True
      then obtain k' where k': "k = Suc k'" by (cases k) auto
      have eq: "addToRanges st x = st\<lparr>pRanges := memmove_list (?R[2 * (k - 1) + 1 := ?R ! (2 * k + 1)])
                                       (2 * k) (2 * k + 2) ((?n - k - 1) * 2),
                                     nRanges := ?n - 1\<rparr>"
        using False True by (auto simp add: addToRanges_def Let_def k_def[symmetric])
      have m1: "range_hi ?R k' = x - 1" using True k' by (simp add: range_hi_def)
      have m2: "range_lo ?R k = x + 1" using True by (simp add: range_lo_def)
      from True have kn: "k < ?n" by simp
      show ?thesis by (rule ranges_merge[OF assms k' kn m1 m2 eq])
    next
      case n1: False
      show ?thesis
      proof (cases ?c2)
        case True
        then obtain k' where k': "k = Suc k'" by (cases k) auto
        have eq: "addToRanges st x = st\<lparr>pRanges := ?R[2 * (k - 1) + 1 := x]\<rparr>"
          using False n1 True by (auto simp add: addToRanges_def Let_def k_def[symmetric])
        have m1: "range_hi ?R k' = x - 1" using True k' by (simp add: range_hi_def)
        have ab: "k < ?n \<Longrightarrow> x + 1 < range_lo ?R k"
        proof -
          assume a: "k < ?n"
          then have "range_lo ?R k \<noteq> x + 1" using n1 True by (auto simp: range_lo_def)
          with abv[OF a] show ?thesis by linarith
        qed
        show ?thesis by (rule ranges_extend_below[OF assms k' k(2) m1 ab eq])
      next
        case n2: False
        have bl: "\<And>k'. k = Suc k' \<Longrightarrow> range_hi ?R k' + 1 < x"
        proof -
          fix k' assume a: "k = Suc k'"
          then have "?n \<noteq> 0" using k(2) by auto 
          then have "range_hi ?R k' \<noteq> x - 1" using n2 a by (auto simp: range_hi_def)
          with bel[OF a] show "range_hi ?R k' + 1 < x" by linarith
        qed
        show ?thesis
        proof (cases ?c3)
          case True
          have eq: "addToRanges st x = st\<lparr>pRanges := ?R[2 * k := x]\<rparr>"
            using False n1 n2 True by (auto simp add: addToRanges_def Let_def k_def[symmetric])
          have m2: "range_lo ?R k = x + 1" using True by (simp add: range_lo_def)
          from True have kn: "k < ?n" by simp
          show ?thesis by (rule ranges_extend_above[OF assms kn m2 bl eq])
        next
          case n3: False
          have eq: "addToRanges st x =
                st\<lparr>pRanges := (memmove_list (realloc_list ?R ((?n + 1) * 2))
                                         (2 * k + 2) (2 * k) ((?n - k) * 2))
                                      [2 * k := x, 2 * k + 1 := x],
                        nRanges := ?n + 1\<rparr>"
            using False n1 n2 n3 by (auto simp add: addToRanges_def Let_def k_def[symmetric])
          have ab: "k < ?n \<Longrightarrow> x + 1 < range_lo ?R k"
          proof -
            assume a: "k < ?n"
            then have "range_lo ?R k \<noteq> x + 1" using n3 by (auto simp: range_lo_def)
            with abv[OF a] show ?thesis by linarith
          qed
          show ?thesis by (rule ranges_insert[OF assms k(2) bl ab eq])
        qed
      qed
    qed
    then show ?thesis using nk by simp
  qed
qed


text \<open>
  Claim C6. If the array holds ranges that are sorted, disjoint and not adjacent, then
  after \<open>addToRanges(x)\<close> it holds such ranges again, they cover the blocks covered
  before and \<open>x\<close>, and the state is unchanged if \<open>x\<close> was covered already. (Block ids are
  unbounded integers here; the code's \<open>x + 1\<close> is taken not to overflow.)
\<close>

theorem addToRanges_preserves:
  assumes "ranges_inv st"
  shows "ranges_inv (addToRanges st x)
         \<and> known (addToRanges st x) = insert x (known st)
         \<and> (x \<in> known st \<longrightarrow> addToRanges st x = st)"
  using assms by (rule addToRanges_inv_known)


theorem addToRanges_preserves_witness:
  "ranges_inv (init_state (stream_information 8 None)\<lparr>pRanges := [0, 1, 5, 6], nRanges := 2\<rparr>)
   \<and> ranges_inv (addToRanges (init_state (stream_information 8 None)\<lparr>pRanges := [0, 1, 5, 6], nRanges := 2\<rparr>) 3)
   \<and> 3 \<in> known (addToRanges (init_state (stream_information 8 None)\<lparr>pRanges := [0, 1, 5, 6], nRanges := 2\<rparr>) 3)"
  using addToRanges_preserves[OF ranges_inv_example, of 3] ranges_inv_example by simp

section \<open>The hash table while a seed is scanned\<close>

lemma hash_invI:
  assumes "length (pBlockHashes st) = nBlocks j + nSeqMatches j"
      and "length (pRsumHash st) = unat (pHashMask st) + 1"
      and "\<And>e n. e < length (pBlockHashes st) \<Longrightarrow> he_next (pBlockHashes st ! e) = Some n
              \<Longrightarrow> e < n \<and> n < nBlocks j"
      and "\<And>k e. k < length (pRsumHash st) \<Longrightarrow> pRsumHash st ! k = Some e \<Longrightarrow> e < nBlocks j"
      and "\<And>e. pRover st = Some e \<Longrightarrow> e < nBlocks j"
  shows "hash_inv j st"
  unfolding hash_inv_def using assms by blast

lemma hash_inv_length: "hash_inv j st \<Longrightarrow> length (pBlockHashes st) = nBlocks j + nSeqMatches j"
  unfolding hash_inv_def by blast

lemma hash_inv_tab_length: "hash_inv j st \<Longrightarrow> length (pRsumHash st) = unat (pHashMask st) + 1"
  unfolding hash_inv_def by blast

lemma hash_inv_nextD:
  "hash_inv j st \<Longrightarrow> e < length (pBlockHashes st) \<Longrightarrow> he_next (pBlockHashes st ! e) = Some n
     \<Longrightarrow> e < n \<and> n < nBlocks j"
  unfolding hash_inv_def by blast

lemma hash_inv_bucketD:
  "hash_inv j st \<Longrightarrow> k < length (pRsumHash st) \<Longrightarrow> pRsumHash st ! k = Some e \<Longrightarrow> e < nBlocks j"
  unfolding hash_inv_def by blast

lemma hash_inv_roverD:
  "hash_inv j st \<Longrightarrow> pRover st = Some e \<Longrightarrow> e < nBlocks j"
  unfolding hash_inv_def by blast

lemma hash_inv_block_lt:
  "hash_inv j st \<Longrightarrow> n < nBlocks j \<Longrightarrow> n < length (pBlockHashes st)"
  by (drule hash_inv_length) simp

lemma hash_inv_other_fields [simp]:
  "hash_inv j (st\<lparr>pRanges := R\<rparr>) = hash_inv j st"
  "hash_inv j (st\<lparr>nRanges := n\<rparr>) = hash_inv j st"
  "hash_inv j (st\<lparr>pTargetFile := f\<rparr>) = hash_inv j st"
  "hash_inv j (st\<lparr>nSkip := s\<rparr>) = hash_inv j st"
  "hash_inv j (st\<lparr>pCurrentWeakCheckSums := c\<rparr>) = hash_inv j st"
  "hash_inv j (st\<lparr>nNextKnown := nk\<rparr>) = hash_inv j st"
  "hash_inv j (st\<lparr>pNextMatch := nm\<rparr>) = hash_inv j st"
  unfolding hash_inv_def by simp_all

lemma hash_inv_bucket:
  assumes "hash_inv j st" "\<And>n. v = Some n \<Longrightarrow> n < nBlocks j"
  shows "hash_inv j (st\<lparr>pRsumHash := (pRsumHash st)[k := v]\<rparr>)"
proof (rule hash_invI)
  let ?st' = "st\<lparr>pRsumHash := (pRsumHash st)[k := v]\<rparr>"
  show "length (pBlockHashes ?st') = nBlocks j + nSeqMatches j"
    using hash_inv_length[OF assms(1)] by simp
  show "length (pRsumHash ?st') = unat (pHashMask ?st') + 1"
    using hash_inv_tab_length[OF assms(1)] by simp
  show "\<And>e n. e < length (pBlockHashes ?st') \<Longrightarrow> he_next (pBlockHashes ?st' ! e) = Some n
          \<Longrightarrow> e < n \<and> n < nBlocks j"
    using hash_inv_nextD[OF assms(1)] by simp
  show "\<And>e. pRover ?st' = Some e \<Longrightarrow> e < nBlocks j"
    using hash_inv_roverD[OF assms(1)] by simp
  fix ka e
  assume a: "ka < length (pRsumHash ?st')" "pRsumHash ?st' ! ka = Some e"
  show "e < nBlocks j"
  proof (cases "ka = k")
    case True with a assms(2) show ?thesis by simp
  next
    case False with a hash_inv_bucketD[OF assms(1), of ka e] show ?thesis by simp
  qed
qed

lemma hash_inv_next:
  assumes "hash_inv j st" "\<And>n. v = Some n \<Longrightarrow> e < n \<and> n < nBlocks j"
  shows "hash_inv j (st\<lparr>pBlockHashes := (pBlockHashes st)[e := (pBlockHashes st ! e)\<lparr>he_next := v\<rparr>]\<rparr>)"
proof (rule hash_invI)
  let ?st' = "st\<lparr>pBlockHashes := (pBlockHashes st)[e := (pBlockHashes st ! e)\<lparr>he_next := v\<rparr>]\<rparr>"
  show "length (pBlockHashes ?st') = nBlocks j + nSeqMatches j"
    using hash_inv_length[OF assms(1)] by simp
  show "length (pRsumHash ?st') = unat (pHashMask ?st') + 1"
    using hash_inv_tab_length[OF assms(1)] by simp
  show "\<And>k e. k < length (pRsumHash ?st') \<Longrightarrow> pRsumHash ?st' ! k = Some e \<Longrightarrow> e < nBlocks j"
    using hash_inv_bucketD[OF assms(1)] by simp
  show "\<And>e. pRover ?st' = Some e \<Longrightarrow> e < nBlocks j"
    using hash_inv_roverD[OF assms(1)] by simp
  fix ea n
  assume a: "ea < length (pBlockHashes ?st')" "he_next (pBlockHashes ?st' ! ea) = Some n"
  show "ea < n \<and> n < nBlocks j"
  proof (cases "ea = e")
    case True with a assms(2) show ?thesis by simp
  next
    case False with a hash_inv_nextD[OF assms(1), of ea n] show ?thesis by simp
  qed
qed

lemma hash_inv_rover:
  assumes "hash_inv j st" "\<And>n. v = Some n \<Longrightarrow> n < nBlocks j"
  shows "hash_inv j (st\<lparr>pRover := v\<rparr>)"
proof (rule hash_invI)
  let ?st' = "st\<lparr>pRover := v\<rparr>"
  show "length (pBlockHashes ?st') = nBlocks j + nSeqMatches j"
    using hash_inv_length[OF assms(1)] by simp
  show "length (pRsumHash ?st') = unat (pHashMask ?st') + 1"
    using hash_inv_tab_length[OF assms(1)] by simp
  show "\<And>e n. e < length (pBlockHashes ?st') \<Longrightarrow> he_next (pBlockHashes ?st' ! e) = Some n
          \<Longrightarrow> e < n \<and> n < nBlocks j"
    using hash_inv_nextD[OF assms(1)] by simp
  show "\<And>k e. k < length (pRsumHash ?st') \<Longrightarrow> pRsumHash ?st' ! k = Some e \<Longrightarrow> e < nBlocks j"
    using hash_inv_bucketD[OF assms(1)] by simp
  show "\<And>e. pRover ?st' = Some e \<Longrightarrow> e < nBlocks j"
    using assms(2) by simp
qed

lemma keeps_refl [simp]: "keeps st st"
  by (simp add: keeps_def)

lemma keeps_trans: "keeps st st' \<Longrightarrow> keeps st' st'' \<Longrightarrow> keeps st st''"
  by (simp add: keeps_def)

lemma keeps_other_fields [simp]:
  "keeps st (st'\<lparr>pRanges := R\<rparr>) = keeps st st'"
  "keeps st (st'\<lparr>nRanges := n\<rparr>) = keeps st st'"
  "keeps st (st'\<lparr>pTargetFile := f\<rparr>) = keeps st st'"
  "keeps st (st'\<lparr>nSkip := s\<rparr>) = keeps st st'"
  "keeps st (st'\<lparr>pCurrentWeakCheckSums := c\<rparr>) = keeps st st'"
  "keeps st (st'\<lparr>nNextKnown := nk\<rparr>) = keeps st st'"
  "keeps st (st'\<lparr>pRover := r\<rparr>) = keeps st st'"
  "keeps st (st'\<lparr>pNextMatch := m\<rparr>) = keeps st st'"
  "keeps st (st'\<lparr>pRsumHash := t\<rparr>) = keeps st st'"
  by (simp_all add: keeps_def)

lemma map_he_r_next_update:
  "map he_r (bh[e := (bh ! e)\<lparr>he_next := v\<rparr>]) = map he_r bh"
proof (cases "e < length bh")
  case True
  then have "(map he_r bh)[e := he_r (bh ! e)] = map he_r bh"
    by (metis list_update_id nth_map)
  then show ?thesis by (simp add: map_update)
next
  case False then show ?thesis by (simp add: not_less list_update_beyond)
qed

lemma map_he_checksum_next_update:
  "map he_checksum (bh[e := (bh ! e)\<lparr>he_next := v\<rparr>]) = map he_checksum bh"
proof (cases "e < length bh")
  case True
  then have "(map he_checksum bh)[e := he_checksum (bh ! e)] = map he_checksum bh"
    by (metis list_update_id nth_map)
  then show ?thesis by (simp add: map_update)
next
  case False then show ?thesis by (simp add: not_less list_update_beyond)
qed

lemmas map_next_update = map_he_r_next_update map_he_checksum_next_update

lemma keeps_next [simp]:
  "keeps st (st'\<lparr>pBlockHashes := (pBlockHashes st')[e := (pBlockHashes st' ! e)\<lparr>he_next := v\<rparr>]\<rparr>)
     = keeps st st'"
  by (simp add: keeps_def map_next_update)

lemma hash_only_refl [simp]: "hash_only st st"
  by (simp add: hash_only_def)

lemma hash_only_trans: "hash_only st st' \<Longrightarrow> hash_only st' st'' \<Longrightarrow> hash_only st st''"
  by (simp add: hash_only_def)

lemma keeps_length: "keeps st st' \<Longrightarrow> length (pBlockHashes st') = length (pBlockHashes st)"
  unfolding keeps_def by (metis length_map)

lemma assign_sel [simp]:
  "pRover (assign s p v) = pRover s"
  "length (pBlockHashes (assign s p v)) = length (pBlockHashes s)"
  "pRanges (assign s p v) = pRanges s"
  "nRanges (assign s p v) = nRanges s"
  "pTargetFile (assign s p v) = pTargetFile s"
  "pNextMatch (assign s p v) = pNextMatch s"
  "nNextKnown (assign s p v) = nNextKnown s"
  "nSkip (assign s p v) = nSkip s"
  "pCurrentWeakCheckSums (assign s p v) = pCurrentWeakCheckSums s"
  by (cases p; simp)+

lemma remove_walk_found:
  assumes inv: "hash_inv j st"
      and ok: "link_ok st p fuel"
      and d: "deref st p = Some t"
  shows "hash_inv j (assign (if pRover st = Some t
                             then st\<lparr>pRover := he_next (pBlockHashes st ! t)\<rparr> else st) p
                       (he_next (pBlockHashes st ! t)))
         \<and> rover_rank (assign (if pRover st = Some t
                             then st\<lparr>pRover := he_next (pBlockHashes st ! t)\<rparr> else st) p
                       (he_next (pBlockHashes st ! t))) \<le> rover_rank st"
proof -
  let ?nx = "he_next (pBlockHashes st ! t)"
  let ?st1 = "if pRover st = Some t then st\<lparr>pRover := ?nx\<rparr> else st"
  have t: "t < nBlocks j"
  proof (cases p)
    case (Bucket k)
    with ok d show ?thesis using hash_inv_bucketD[OF inv, of k t] by (simp add: link_ok_def)
  next
    case (NextOf e)
    with ok d show ?thesis using hash_inv_nextD[OF inv, of e t] by (simp add: link_ok_def)
  qed
  then have tl: "t < length (pBlockHashes st)" using hash_inv_block_lt[OF inv] by simp
  have nx: "\<And>n. ?nx = Some n \<Longrightarrow> t < n \<and> n < nBlocks j"
    using hash_inv_nextD[OF inv tl] by simp
  then have nxl: "\<And>n. ?nx = Some n \<Longrightarrow> n < nBlocks j"
    by simp
  have inv1: "hash_inv j ?st1"
    using inv hash_inv_rover[OF inv nxl] by simp
  have bh1: "pBlockHashes ?st1 = pBlockHashes st" and tab1: "pRsumHash ?st1 = pRsumHash st"
    by simp_all
  have inv': "hash_inv j (assign ?st1 p ?nx)"
  proof (cases p)
    case (Bucket k)
    have "hash_inv j (?st1\<lparr>pRsumHash := (pRsumHash ?st1)[k := ?nx]\<rparr>)"
      by (rule hash_inv_bucket[OF inv1]) (use nx in simp)
    then show ?thesis by (simp only: Bucket assign.simps)
  next
    case (NextOf e)
    with ok d have et: "e < t" using hash_inv_nextD[OF inv, of e t] by (simp add: link_ok_def)
    have "hash_inv j (?st1\<lparr>pBlockHashes := (pBlockHashes ?st1)[e := (pBlockHashes ?st1 ! e)\<lparr>he_next := ?nx\<rparr>]\<rparr>)"
    proof (rule hash_inv_next[OF inv1])
      fix n assume "?nx = Some n"
      from nx[OF this] et show "e < n \<and> n < nBlocks j" by simp
    qed
    then show ?thesis by (simp only: NextOf assign.simps)
  qed
  have "rover_rank (assign ?st1 p ?nx) \<le> rover_rank st"
  proof (cases "pRover st = Some t")
    case True
    show ?thesis
    proof (cases ?nx)
      case None
      then show ?thesis using True by (simp add: rover_rank_def)
    next
      case (Some n)
      from nx[OF Some] have "t < n" by simp
      then show ?thesis using True Some by (simp add: rover_rank_def)
    qed
  next
    case False
    then show ?thesis by (simp add: rover_rank_def split: option.splits)
  qed
  with inv' show ?thesis by simp
qed

lemma assign_frame:
  "keeps st (assign st' p v) = keeps st st'"
  "hash_only st (assign st' p v) = hash_only st st'"
  by (cases p; simp add: hash_only_def)+

lemma remove_walk_Some:
  assumes inv: "hash_inv j st"
  shows "link_ok st p fuel \<Longrightarrow>
         \<exists>st'. remove_walk fuel st p t = Some st' \<and> hash_inv j st' \<and> keeps st st'
               \<and> hash_only st st' \<and> rover_rank st' \<le> rover_rank st"
proof (induction fuel arbitrary: p)
  case 0
  then show ?case by (cases p) (auto simp: link_ok_def)
next
  case (Suc fuel)
  show ?case
  proof (cases "deref st p")
    case None
    then show ?thesis using inv by simp
  next
    case (Some e')
    show ?thesis
    proof (cases "e' = t")
      case True
      with Some have d: "deref st p = Some t" by simp
      from remove_walk_found[OF inv Suc.prems d]
      show ?thesis using d by (simp add: Let_def assign_frame hash_only_def)
    next
      case False
      have ok': "link_ok st (NextOf e') fuel"
      proof (cases p)
        case (Bucket k)
        with Suc.prems Some have "e' < nBlocks j" using hash_inv_bucketD[OF inv, of k e'] by (simp add: link_ok_def)
        then have "e' < length (pBlockHashes st)" using hash_inv_block_lt[OF inv] by simp
        moreover have "length (pBlockHashes st) \<le> fuel" using Suc.prems Bucket by (simp add: link_ok_def)
        ultimately show ?thesis by (auto simp: link_ok_def)
      next
        case (NextOf e)
        with Suc.prems Some have "e < e' \<and> e' < nBlocks j"
          using hash_inv_nextD[OF inv, of e e'] by (simp add: link_ok_def)
        moreover then have "e' < length (pBlockHashes st)" using hash_inv_block_lt[OF inv] by simp
        moreover have "length (pBlockHashes st) - e \<le> Suc fuel" using Suc.prems NextOf by (simp add: link_ok_def)
        ultimately show ?thesis by (auto simp: link_ok_def)
      qed
      from Suc.IH[OF ok'] show ?thesis using Some False by simp
    qed
  qed
qed

lemma same_scan_refl [simp]: "same_scan st st"
  by (simp add: same_scan_def)

lemma same_scan_trans: "same_scan st st' \<Longrightarrow> same_scan st' st'' \<Longrightarrow> same_scan st st''"
  by (simp add: same_scan_def)

lemma hash_only_same_scan: "hash_only st st' \<Longrightarrow> same_scan st st'"
  by (simp add: hash_only_def same_scan_def)

lemma unat_and_mask_less: "unat (h AND m) < unat (m :: 32 word) + 1"
proof -
  have "h AND m \<le> m" by (rule word_and_le1[of h m, unfolded and.commute[of m h]] | simp add: word_and_le2)
  then show ?thesis by (simp add: word_le_nat_alt)
qed

lemma removeBlockFromHash_Some:
  assumes inv: "hash_inv j st"
  shows "\<exists>st'. removeBlockFromHash j st bid = Some st' \<and> hash_inv j st' \<and> keeps st st'
               \<and> hash_only st st' \<and> rover_rank st' \<le> rover_rank st"
proof -
  let ?k = "unat (calcRHash j (pBlockHashes st) (nat bid) AND pHashMask st)"
  have "?k < length (pRsumHash st)"
    using hash_inv_tab_length[OF inv] unat_and_mask_less[of _ "pHashMask st"] by simp
  then have "link_ok st (Bucket ?k) (length (pBlockHashes st) + 1)"
    by (simp add: link_ok_def)
  from remove_walk_Some[OF inv this] show ?thesis
    by (simp add: removeBlockFromHash_def)
qed

lemma addToRanges_cases:
  "P st \<Longrightarrow> (\<And>R. P (st\<lparr>pRanges := R\<rparr>))
     \<Longrightarrow> (\<And>R n. P (st\<lparr>pRanges := R, nRanges := n\<rparr>)) \<Longrightarrow> P (addToRanges st x)"
  by (simp add: addToRanges_def Let_def)

lemma addToRanges_fields:
  "\<exists>R n. addToRanges st x = st\<lparr>pRanges := R, nRanges := n\<rparr>"
proof (rule addToRanges_cases)
  have "st = st\<lparr>pRanges := pRanges st, nRanges := nRanges st\<rparr>" by simp
  then show "\<exists>R n. st = st\<lparr>pRanges := R, nRanges := n\<rparr>" by blast
next
  fix R
  have "st\<lparr>pRanges := R\<rparr> = st\<lparr>pRanges := R, nRanges := nRanges st\<rparr>" by simp
  then show "\<exists>R' n. st\<lparr>pRanges := R\<rparr> = st\<lparr>pRanges := R', nRanges := n\<rparr>" by blast
next
  fix R n
  show "\<exists>R' n'. st\<lparr>pRanges := R, nRanges := n\<rparr> = st\<lparr>pRanges := R', nRanges := n'\<rparr>" by blast
qed

lemma addToRanges_frame:
  "hash_inv j (addToRanges st x) = hash_inv j st"
  "keeps st0 (addToRanges st x) = keeps st0 st"
  "same_scan st0 (addToRanges st x) = same_scan st0 st"
  "rover_rank (addToRanges st x) = rover_rank st"
  "pRover (addToRanges st x) = pRover st"
  "pBlockHashes (addToRanges st x) = pBlockHashes st"
  "pRsumHash (addToRanges st x) = pRsumHash st"
proof -
  obtain R n where e: "addToRanges st x = st\<lparr>pRanges := R, nRanges := n\<rparr>"
    using addToRanges_fields by blast
  show "hash_inv j (addToRanges st x) = hash_inv j st"
    "keeps st0 (addToRanges st x) = keeps st0 st"
    "same_scan st0 (addToRanges st x) = same_scan st0 st"
    "rover_rank (addToRanges st x) = rover_rank st"
    "pRover (addToRanges st x) = pRover st"
    "pBlockHashes (addToRanges st x) = pBlockHashes st"
    "pRsumHash (addToRanges st x) = pRsumHash st"
    by (simp_all add: e same_scan_def rover_rank_def split: option.splits)
qed

lemma write_ids_Some:
  "hash_inv j st \<Longrightarrow>
     \<exists>st'. write_ids j st ids = Some st' \<and> hash_inv j st' \<and> keeps st st'
           \<and> same_scan st st' \<and> rover_rank st' \<le> rover_rank st"
proof (induction ids arbitrary: st)
  case Nil
  then show ?case by simp
next
  case (Cons i ids)
  from removeBlockFromHash_Some[OF Cons.prems, of i]
  obtain st1 where 1: "removeBlockFromHash j st i = Some st1" "hash_inv j st1" "keeps st st1"
     "hash_only st st1" "rover_rank st1 \<le> rover_rank st" by blast
  let ?st2 = "addToRanges st1 i"
  have inv2: "hash_inv j ?st2" using 1(2) by (simp add: addToRanges_frame)
  from Cons.IH[OF inv2]
  obtain st' where 2: "write_ids j ?st2 ids = Some st'" "hash_inv j st'" "keeps ?st2 st'"
     "same_scan ?st2 st'" "rover_rank st' \<le> rover_rank ?st2" by blast
  have k: "keeps st ?st2" using 1(3) by (simp add: addToRanges_frame)
  have s: "same_scan st ?st2" using hash_only_same_scan[OF 1(4)] by (simp add: addToRanges_frame)
  have r: "rover_rank ?st2 \<le> rover_rank st" using 1(5) by (simp add: addToRanges_frame)
  show ?case
    using 1(1) 2(1,2) keeps_trans[OF k 2(3)] same_scan_trans[OF s 2(4)] r 2(5)
    by simp
qed

lemma writeBlocks_Some:
  assumes inv: "hash_inv j st"
  shows "\<exists>st'. writeBlocks j st data bfrom bto = Some st' \<and> hash_inv j st' \<and> keeps st st'
          \<and> rover_rank st' \<le> rover_rank st
          \<and> pTargetFile st' =
               qf_seek (qf_write (qf_seek (pTargetFile st) ((bfrom + nBlockIdOffset j) * 2 ^ nBlockShift j))
                          (take (nat ((bto - bfrom + 1) * 2 ^ nBlockShift j)) data))
                       (int (qf_pos (pTargetFile st)))
          \<and> pNextMatch st' = pNextMatch st \<and> nNextKnown st' = nNextKnown st
          \<and> nSkip st' = nSkip st \<and> pCurrentWeakCheckSums st' = pCurrentWeakCheckSums st"
proof -
  define f3 where "f3 = qf_seek (qf_write (qf_seek (pTargetFile st) ((bfrom + nBlockIdOffset j) * 2 ^ nBlockShift j))
                          (take (nat ((bto - bfrom + 1) * 2 ^ nBlockShift j)) data))
                       (int (qf_pos (pTargetFile st)))"
  have l: "(bto + nBlockIdOffset j) - (bfrom + nBlockIdOffset j) + 1 = bto - bfrom + 1" by simp
  have e: "writeBlocks j st data bfrom bto = write_ids j (st\<lparr>pTargetFile := f3\<rparr>) [bfrom..bto]"
    unfolding writeBlocks_def Let_def f3_def l ..
  have inv1: "hash_inv j (st\<lparr>pTargetFile := f3\<rparr>)" using inv by simp
  from write_ids_Some[OF inv1, of "[bfrom..bto]"]
  obtain st' where 1: "write_ids j (st\<lparr>pTargetFile := f3\<rparr>) [bfrom..bto] = Some st'" "hash_inv j st'"
     "keeps (st\<lparr>pTargetFile := f3\<rparr>) st'" "same_scan (st\<lparr>pTargetFile := f3\<rparr>) st'"
     "rover_rank st' \<le> rover_rank (st\<lparr>pTargetFile := f3\<rparr>)" by blast
  have "keeps st st'" using 1(3) by (simp add: keeps_def)
  moreover have "rover_rank st' \<le> rover_rank st" using 1(5) by (simp add: rover_rank_def split: option.splits)
  ultimately show ?thesis
    using 1(1,2,4) unfolding e f3_def[symmetric] by (simp add: same_scan_def)
qed

lemma parse_blocks_frame:
  "parse_blocks j bytes ids pos bh = (err, bh') \<Longrightarrow>
     length bh' = length bh \<and> map he_next bh' = map he_next bh"
proof (induction ids arbitrary: pos bh)
  case Nil then show ?case by simp
next
  case (Cons i ids)
  show ?case
  proof (cases "i < length bh")
    case True
    from Cons.prems show ?thesis
      apply (simp add: Let_def split: prod.splits if_splits)
      apply (drule Cons.IH)
      apply (simp add: map_update)
      apply (metis True list_update_id map_update nth_map)
      done
  next
    case False
    from Cons.prems show ?thesis
      apply (simp add: Let_def split: prod.splits if_splits)
      apply (drule Cons.IH)
      using False apply (simp add: not_less list_update_beyond)
      done
  qed
qed

lemma parse_frame:
  assumes "parseTargetFileCheckSumBlocks j st = (err, st')"
  shows "length (pBlockHashes st') = length (pBlockHashes st)"
    "map he_next (pBlockHashes st') = map he_next (pBlockHashes st)"
    "pNextMatch st' = pNextMatch st" "pRover st' = pRover st"
    "pRanges st' = pRanges st" "nRanges st' = nRanges st" "nNextKnown st' = nNextKnown st"
    "nSkip st' = nSkip st" "pTargetFile st' = pTargetFile st"
    "pRsumHash st = [] \<Longrightarrow> pRsumHash st' = []"
  using assms
  by (auto simp add: parseTargetFileCheckSumBlocks_def
      split: option.splits prod.splits if_splits dest: parse_blocks_frame)

lemma build_fill_inv:
  assumes "build_fill j hm bm (rev [0..<m]) (bh, tab, bits) = (bh', tab', bits')"
    and "m \<le> nb" and "nb \<le> length bh" and "unat hm < length tab"
    and "\<forall>e < length bh. \<forall>n. he_next (bh ! e) = Some n \<longrightarrow> e < n \<and> n < nb"
    and "\<forall>k < length tab. \<forall>e. tab ! k = Some e \<longrightarrow> m \<le> e \<and> e < nb"
  shows "length bh' = length bh \<and> length tab' = length tab
     \<and> map he_r bh' = map he_r bh \<and> map he_checksum bh' = map he_checksum bh
     \<and> (\<forall>e < length bh'. \<forall>n. he_next (bh' ! e) = Some n \<longrightarrow> e < n \<and> n < nb)
     \<and> (\<forall>k < length tab'. \<forall>e. tab' ! k = Some e \<longrightarrow> e < nb)"
  using assms
proof (induction m arbitrary: bh tab bits)
  case 0
  then show ?case by auto
next
  case (Suc m)
  define h where "h = calcRHash j bh m"
  define k where "k = unat (h AND hm)"
  define bh1 where "bh1 = bh[m := (bh ! m)\<lparr>he_next := tab ! k\<rparr>]"
  define tab1 where "tab1 = tab[k := Some m]"
  define bits1 where "bits1 = bits[unat (drop_bit 3 (h AND bm)) :=
        (bits ! unat (drop_bit 3 (h AND bm))) OR ucast (push_bit (unat (h AND 7)) (1 :: 32 word))]"
  have step: "build_fill j hm bm (rev [0..<m]) (bh1, tab1, bits1) = (bh', tab', bits')"
    using Suc.prems(1) by (simp add: Let_def h_def k_def bh1_def tab1_def bits1_def)
  have klt: "k < length tab"
    using unat_and_mask_less[of h hm] Suc.prems(4) by (simp add: k_def)
  have mlt: "m < length bh" "m < nb" using Suc.prems(2,3) by auto
  have l1: "length bh1 = length bh" "length tab1 = length tab" by (simp_all add: bh1_def tab1_def)
  have n1: "\<forall>e < length bh1. \<forall>n. he_next (bh1 ! e) = Some n \<longrightarrow> e < n \<and> n < nb"
  proof (intro allI impI)
    fix e n assume e: "e < length bh1" and n: "he_next (bh1 ! e) = Some n"
    show "e < n \<and> n < nb"
    proof (cases "e = m")
      case True
      then have "tab ! k = Some n" using n mlt by (simp add: bh1_def)
      then have "Suc m \<le> n \<and> n < nb" using Suc.prems(6) klt by blast
      then show ?thesis using True by simp
    next
      case False
      then have "he_next (bh ! e) = Some n" using n by (simp add: bh1_def)
      then show ?thesis using Suc.prems(5) e l1 by simp
    qed
  qed
  have t1: "\<forall>k' < length tab1. \<forall>e. tab1 ! k' = Some e \<longrightarrow> m \<le> e \<and> e < nb"
  proof (intro allI impI)
    fix k' e assume k': "k' < length tab1" and e: "tab1 ! k' = Some e"
    show "m \<le> e \<and> e < nb"
    proof (cases "k' = k")
      case True
      then have "e = m" using e klt by (simp add: tab1_def)
      then show ?thesis using mlt by simp
    next
      case False
      then have "tab ! k' = Some e" using e by (simp add: tab1_def)
      moreover have "k' < length tab" using k' l1 by simp
      ultimately have "Suc m \<le> e \<and> e < nb" using Suc.prems(6) by blast
      then show ?thesis by simp
    qed
  qed
  have "m \<le> nb" "nb \<le> length bh1" "unat hm < length tab1"
    using Suc.prems(2,3,4) l1 by simp_all
  from Suc.IH[OF step this n1 t1]
  have r: "length bh' = length bh1 \<and> length tab' = length tab1
     \<and> map he_r bh' = map he_r bh1 \<and> map he_checksum bh' = map he_checksum bh1
     \<and> (\<forall>e < length bh'. \<forall>n. he_next (bh' ! e) = Some n \<longrightarrow> e < n \<and> n < nb)
     \<and> (\<forall>k < length tab'. \<forall>e. tab' ! k = Some e \<longrightarrow> e < nb)" .
  have "map he_r bh1 = map he_r bh" "map he_checksum bh1 = map he_checksum bh"
    unfolding bh1_def by (simp_all add: map_next_update)
  with r l1 show ?case by simp
qed

lemma buildHash_fields:
  "pRanges (snd (buildHash j st)) = pRanges st"
  "nRanges (snd (buildHash j st)) = nRanges st"
  "pNextMatch (snd (buildHash j st)) = pNextMatch st"
  "pRover (snd (buildHash j st)) = pRover st"
  "nNextKnown (snd (buildHash j st)) = nNextKnown st"
  "nSkip (snd (buildHash j st)) = nSkip st"
  "pTargetFile (snd (buildHash j st)) = pTargetFile st"
  "pCurrentWeakCheckSums (snd (buildHash j st)) = pCurrentWeakCheckSums st"
  "fst (buildHash j st) = 1"
  by (simp_all add: buildHash_def Let_def split: prod.splits)

lemma buildHash_hash_inv:
  assumes len: "length (pBlockHashes st) = nBlocks j + nSeqMatches j"
    and nx: "\<forall>e < length (pBlockHashes st). he_next (pBlockHashes st ! e) = None"
    and rv: "pRover st = None"
  shows "hash_inv j (snd (buildHash j st))"
    and "map he_r (pBlockHashes (snd (buildHash j st))) = map he_r (pBlockHashes st)"
    and "map he_checksum (pBlockHashes (snd (buildHash j st))) = map he_checksum (pBlockHashes st)"
proof -
  define i where "i = hash_exponent 16 (nBlocks j)"
  define hm where "hm = (push_bit i 2 - 1 :: 32 word)"
  define bm where "bm = (push_bit (i + BITHASHBITS) 2 - 1 :: 32 word)"
  define tab where "tab = replicate (unat hm + 1) (None :: nat option)"
  define bits where "bits = replicate (unat bm + 1) (0 :: byte)"
  obtain bh' tab' bits' where
    bf: "build_fill j hm bm (rev [0..<nBlocks j]) (pBlockHashes st, tab, bits) = (bh', tab', bits')"
    by (cases "build_fill j hm bm (rev [0..<nBlocks j]) (pBlockHashes st, tab, bits)") auto
  have st': "snd (buildHash j st) = st\<lparr>pBlockHashes := bh', pRsumHash := tab', pBitHash := bits',
                     pHashMask := hm, pBitHashMask := bm\<rparr>"
    using bf by (simp add: buildHash_def Let_def i_def hm_def bm_def tab_def bits_def)
  have a: "nBlocks j \<le> nBlocks j" "nBlocks j \<le> length (pBlockHashes st)" "unat hm < length tab"
    using len by (simp_all add: tab_def)
  have b: "\<forall>e < length (pBlockHashes st). \<forall>n. he_next (pBlockHashes st ! e) = Some n
             \<longrightarrow> e < n \<and> n < nBlocks j"
    using nx by simp
  have c: "\<forall>k < length tab. \<forall>e. tab ! k = Some e \<longrightarrow> nBlocks j \<le> e \<and> e < nBlocks j"
  proof (intro allI impI)
    fix k e assume "k < length tab" and "tab ! k = Some e"
    then have "k < unat hm + 1" "replicate (unat hm + 1) (None :: nat option) ! k = Some e"
      by (simp_all add: tab_def)
    then show "nBlocks j \<le> e \<and> e < nBlocks j" by (simp only: nth_replicate) simp
  qed
  from build_fill_inv[OF bf a b c]
  have r: "length bh' = length (pBlockHashes st)" "length tab' = length tab"
     "map he_r bh' = map he_r (pBlockHashes st)"
     "map he_checksum bh' = map he_checksum (pBlockHashes st)"
     "\<forall>e < length bh'. \<forall>n. he_next (bh' ! e) = Some n \<longrightarrow> e < n \<and> n < nBlocks j"
     "\<forall>k < length tab'. \<forall>e. tab' ! k = Some e \<longrightarrow> e < nBlocks j"
    by simp_all
  show "hash_inv j (snd (buildHash j st))"
    unfolding st' hash_inv_def using r len rv by (simp add: tab_def)
  show "map he_r (pBlockHashes (snd (buildHash j st))) = map he_r (pBlockHashes st)"
    "map he_checksum (pBlockHashes (snd (buildHash j st))) = map he_checksum (pBlockHashes st)"
    unfolding st' using r by simp_all
qed

lemma qf_write_effect:
  assumes ne: "bs \<noteq> []"
  shows "qf_pos (qf_write f bs) = qf_pos f + length bs"
    and "qf_writes (qf_write f bs) = qf_writes f @ [(qf_pos f, bs)]"
    and "length (qf_bytes (qf_write f bs)) = max (length (qf_bytes f)) (qf_pos f + length bs)"
    and "i < length bs \<Longrightarrow> qf_bytes (qf_write f bs) ! (qf_pos f + i) = bs ! i"
    and "i < qf_pos f \<or> qf_pos f + length bs \<le> i \<Longrightarrow> i < length (qf_bytes (qf_write f bs)) \<Longrightarrow>
           qf_bytes (qf_write f bs) ! i = (if i < length (qf_bytes f) then qf_bytes f ! i else 0)"
proof -
  define p where "p = qf_pos f"
  define base where "base = qf_bytes f @ replicate (p - length (qf_bytes f)) 0"
  have lb: "length base = max (length (qf_bytes f)) p" by (simp add: base_def)
  have bn: "\<And>i. i < length base \<Longrightarrow> base ! i = (if i < length (qf_bytes f) then qf_bytes f ! i else 0)"
    by (simp add: base_def nth_append)
  have e: "qf_bytes (qf_write f bs) = take p base @ bs @ drop (p + length bs) base"
    using ne by (simp add: qf_write_def Let_def p_def base_def)
  have lt: "length (take p base) = p" using lb by simp
  show "qf_pos (qf_write f bs) = qf_pos f + length bs"
    using ne by (simp add: qf_write_def Let_def)
  show "qf_writes (qf_write f bs) = qf_writes f @ [(qf_pos f, bs)]"
    using ne by (simp add: qf_write_def Let_def)
  show "length (qf_bytes (qf_write f bs)) = max (length (qf_bytes f)) (qf_pos f + length bs)"
    unfolding e p_def[symmetric] using lb by (simp add: max_def)
  show "i < length bs \<Longrightarrow> qf_bytes (qf_write f bs) ! (qf_pos f + i) = bs ! i"
    unfolding e p_def[symmetric] using lt by (simp add: nth_append)
  show "qf_bytes (qf_write f bs) ! i = (if i < length (qf_bytes f) then qf_bytes f ! i else 0)"
    if a: "i < qf_pos f \<or> qf_pos f + length bs \<le> i" and b: "i < length (qf_bytes (qf_write f bs))"
  proof (cases "i < p")
    case True
    then have "qf_bytes (qf_write f bs) ! i = base ! i"
      unfolding e using lt by (simp add: nth_append)
    moreover have "i < length base" using True lb by simp
    ultimately show ?thesis using bn by simp
  next
    case False
    then have ge: "p + length bs \<le> i" using a by (simp add: p_def)
    have il: "i < length base"
      using b ge lb unfolding e by simp
    have "qf_bytes (qf_write f bs) ! i = (bs @ drop (p + length bs) base) ! (i - p)"
      unfolding e using lt False by (simp add: nth_append)
    also have "\<dots> = drop (p + length bs) base ! (i - p - length bs)"
    proof -
      have "\<not> i - p < length bs" using ge by linarith
      then show ?thesis by (simp add: nth_append)
    qed
    also have "\<dots> = base ! i" using ge il by simp
    finally show ?thesis using bn il by simp
  qed
qed

lemma init_state_next:
  "\<forall>e < length (pBlockHashes (init_state info)). he_next (pBlockHashes (init_state info) ! e) = None"
  by (simp add: init_state_def zero_entry_def)

lemma map_eq_nthD: "map f xs = map f ys \<Longrightarrow> i < length xs \<Longrightarrow> f (xs ! i) = f (ys ! i)"
  by (metis length_map nth_map)

lemma ready_state_hash_inv: "hash_inv (job_of info) (ready_state info)"
proof -
  obtain err st1 where p: "parseTargetFileCheckSumBlocks (job_of info) (init_state info) = (err, st1)"
    by (cases "parseTargetFileCheckSumBlocks (job_of info) (init_state info)") auto
  note f = parse_frame[OF p]
  have l: "length (pBlockHashes st1) = nBlocks (job_of info) + nSeqMatches (job_of info)"
    using f(1) by (simp add: init_state_def job_of_def)
  have n: "\<forall>e < length (pBlockHashes st1). he_next (pBlockHashes st1 ! e) = None"
  proof (intro allI impI)
    fix e assume e: "e < length (pBlockHashes st1)"
    have "he_next (pBlockHashes st1 ! e) = he_next (pBlockHashes (init_state info) ! e)"
      using map_eq_nthD[OF f(2) e] .
    then show "he_next (pBlockHashes st1 ! e) = None"
      using init_state_next e f(1) by simp
  qed
  have m: "pNextMatch st1 = None" "pRover st1 = None"
    using f(3,4) by (simp_all add: init_state_def)
  show ?thesis
    unfolding ready_state_def p snd_conv by (rule buildHash_hash_inv(1)[OF l n m(2)])
qed

lemma ready_state_pTargetFile: "pTargetFile (ready_state info) = targetFile info"
proof -
  obtain err st1 where p: "parseTargetFileCheckSumBlocks (job_of info) (init_state info) = (err, st1)"
    by (cases "parseTargetFileCheckSumBlocks (job_of info) (init_state info)") auto
  show ?thesis
    unfolding ready_state_def p snd_conv using parse_frame(9)[OF p]
    by (simp add: buildHash_fields init_state_def)
qed

lemma writeBlocks_effect_gen:
  assumes inv: "hash_inv j st" and le: "bfrom \<le> bto"
    and off0: "0 \<le> bfrom + nBlockIdOffset j"
    and n: "n = nat ((bto - bfrom + 1) * 2 ^ nBlockShift j)"
    and off: "off = nat ((bfrom + nBlockIdOffset j) * 2 ^ nBlockShift j)"
    and dl: "n \<le> length data"
  shows "\<exists>st'. writeBlocks j st data bfrom bto = Some st'
     \<and> qf_pos (pTargetFile st') = qf_pos (pTargetFile st)
     \<and> qf_writes (pTargetFile st') = qf_writes (pTargetFile st) @ [(off, take n data)]
     \<and> length (qf_bytes (pTargetFile st')) = max (length (qf_bytes (pTargetFile st))) (off + n)
     \<and> (\<forall>i < n. qf_bytes (pTargetFile st') ! (off + i) = data ! i)
     \<and> (\<forall>i < length (qf_bytes (pTargetFile st')). i < off \<or> off + n \<le> i \<longrightarrow>
           qf_bytes (pTargetFile st') ! i
             = (if i < length (qf_bytes (pTargetFile st)) then qf_bytes (pTargetFile st) ! i else 0))"
proof -
  from writeBlocks_Some[OF inv, of data bfrom bto]
  obtain st' where w: "writeBlocks j st data bfrom bto = Some st'"
    and f: "pTargetFile st' =
               qf_seek (qf_write (qf_seek (pTargetFile st) ((bfrom + nBlockIdOffset j) * 2 ^ nBlockShift j))
                          (take (nat ((bto - bfrom + 1) * 2 ^ nBlockShift j)) data))
                       (int (qf_pos (pTargetFile st)))"
    by blast
  define f1 where "f1 = (pTargetFile st)\<lparr>qf_pos := off\<rparr>"
  have s1: "qf_seek (pTargetFile st) ((bfrom + nBlockIdOffset j) * 2 ^ nBlockShift j) = f1"
  proof -
    have "0 \<le> (bfrom + nBlockIdOffset j) * 2 ^ nBlockShift j" using off0 by simp
    then have "\<not> (bfrom + nBlockIdOffset j) * 2 ^ nBlockShift j < 0" by linarith
    then show ?thesis by (simp add: qf_seek_def off f1_def)
  qed
  have npos: "0 < n"
  proof -
    have "0 < (bto - bfrom + 1) * (2::int) ^ nBlockShift j" using le by simp
    then show ?thesis by (simp add: n)
  qed
  have ne: "take n data \<noteq> []" using npos dl by auto
  have ln: "length (take n data) = n" using dl by simp
  have f': "pTargetFile st' = (qf_write f1 (take n data))\<lparr>qf_pos := qf_pos (pTargetFile st)\<rparr>"
    unfolding f s1 n[symmetric] by (simp add: qf_seek_def)
  note e = qf_write_effect[OF ne, where f = f1]
  have p1: "qf_pos f1 = off" "qf_bytes f1 = qf_bytes (pTargetFile st)"
    "qf_writes f1 = qf_writes (pTargetFile st)" by (simp_all add: f1_def)
  have c1: "qf_pos (pTargetFile st') = qf_pos (pTargetFile st)" by (simp add: f')
  have c2: "qf_writes (pTargetFile st') = qf_writes (pTargetFile st) @ [(off, take n data)]"
    using e(2) by (simp add: f' p1)
  have c3: "length (qf_bytes (pTargetFile st')) = max (length (qf_bytes (pTargetFile st))) (off + n)"
    using e(3) dl by (simp add: f' p1 min_def)
  have c4: "\<forall>i < n. qf_bytes (pTargetFile st') ! (off + i) = data ! i"
  proof (intro allI impI)
    fix i assume "i < n"
    then show "qf_bytes (pTargetFile st') ! (off + i) = data ! i"
      using e(4)[where i = i] dl by (simp add: f' p1 min_def)
  qed
  have c5: "\<forall>i < length (qf_bytes (pTargetFile st')). i < off \<or> off + n \<le> i \<longrightarrow>
           qf_bytes (pTargetFile st') ! i
             = (if i < length (qf_bytes (pTargetFile st)) then qf_bytes (pTargetFile st) ! i else 0)"
  proof (intro allI impI)
    fix i assume a: "i < length (qf_bytes (pTargetFile st'))" and b: "i < off \<or> off + n \<le> i"
    have "i < length (qf_bytes (qf_write f1 (take n data)))" using a by (simp add: f')
    moreover have "i < qf_pos f1 \<or> qf_pos f1 + length (take n data) \<le> i" using b dl by (simp add: p1 min_def)
    ultimately show "qf_bytes (pTargetFile st') ! i
             = (if i < length (qf_bytes (pTargetFile st)) then qf_bytes (pTargetFile st) ! i else 0)"
      using e(5)[where i = i] by (simp add: f' p1)
  qed
  show ?thesis using w c1 c2 c3 c4 c5 by blast
qed

section \<open>The steps of a scan\<close>

lemma ilog2_le: "0 < n \<Longrightarrow> 2 ^ ilog2 n \<le> n"
proof (induction n rule: ilog2.induct)
  case (1 n)
  show ?case
  proof (cases "n < 2")
    case True
    then show ?thesis using "1.prems" by (subst ilog2.simps) simp
  next
    case False
    then have "0 < n div 2" by simp
    from "1.IH"[OF False this] have "2 ^ ilog2 (n div 2) \<le> n div 2" .
    then have "2 * 2 ^ ilog2 (n div 2) \<le> n" by linarith
    then show ?thesis using False by (subst ilog2.simps) simp
  qed
qed

lemma block_shift_of_le: "0 < bs \<Longrightarrow> 2 ^ block_shift_of bs \<le> bs"
  by (simp add: block_shift_of_def ilog2_le)

lemma job_wf_shift: "job_wf j \<Longrightarrow> 2 ^ nBlockShift j \<le> nBlockSize j"
  by (simp add: job_wf_def block_shift_of_le)

lemma job_wf_of: 
  "0 < blockSize info \<Longrightarrow> 0 < seqMatches info \<Longrightarrow> seqMatches info \<le> 2 \<Longrightarrow> 0 \<le> blockIdOffset info
     \<Longrightarrow> job_wf (job_of info)"
  by (simp add: job_wf_def job_of_def)

lemma memo_ok_init: "memo_ok j data (- 1, replicate 2 (replicate CHECKSUM_SIZE 0))"
  by (simp add: memo_ok_def)

lemma strong_loop_post:
  "memo_ok j data (dn, sums) \<Longrightarrow> nSeqMatches j \<le> 2 \<Longrightarrow> k < 2 \<Longrightarrow> int k \<le> dn + 1 \<Longrightarrow>
   strong_loop j bh data onlyone i k dn sums = (ok, k', memo') \<Longrightarrow>
     memo_ok j data memo' \<and> k < k' \<and> (k' = k + 1 \<or> k' \<le> nSeqMatches j)
     \<and> (onlyone \<longrightarrow> k' = k + 1)
     \<and> (ok \<longrightarrow> (\<forall>m. k \<le> m \<and> m < k' \<longrightarrow>
            take (nStrongCheckSumBytes j) (md4 (window data (nBlockSize j * m) (nBlockSize j)))
              = take (nStrongCheckSumBytes j) (he_checksum (bh ! (i + m)))))
     \<and> (\<not> ok \<longrightarrow>
            take (nStrongCheckSumBytes j) (md4 (window data (nBlockSize j * (k' - 1)) (nBlockSize j)))
              \<noteq> take (nStrongCheckSumBytes j) (he_checksum (bh ! (i + (k' - 1)))))"
proof (induction j bh data onlyone i k dn sums arbitrary: ok k' memo' rule: strong_loop.induct)
  case (1 j bh data onlyone i k dn sums)
  define dig where "dig = md4 (window data (nBlockSize j * k) (nBlockSize j))"
  define memo where "memo = (if int k > dn then (int k, sums[k := dig]) else (dn, sums))"
  define okk where "okk \<longleftrightarrow> take (nStrongCheckSumBytes j) (snd memo ! k)
                  = take (nStrongCheckSumBytes j) (he_checksum (bh ! (i + k)))"
  have mo: "memo_ok j data memo"
  proof (cases "int k > dn")
    case True
    have "\<And>m. int m \<le> int k \<Longrightarrow> sums[k := dig] ! m = md4 (window data (nBlockSize j * m) (nBlockSize j))"
    proof -
      fix m assume m: "int m \<le> int k"
      show "sums[k := dig] ! m = md4 (window data (nBlockSize j * m) (nBlockSize j))"
      proof (cases "m = k")
        case True
        then show ?thesis using "1.prems"(1,3) by (simp add: memo_ok_def dig_def)
      next
        case False
        then have "int m \<le> dn" using m "1.prems"(4) by simp
        then show ?thesis using "1.prems"(1) False by (simp add: memo_ok_def)
      qed
    qed
    then show ?thesis using True "1.prems"(1,3) by (simp add: memo_def memo_ok_def)
  next
    case False
    then show ?thesis using "1.prems"(1) by (simp add: memo_def)
  qed
  have kd: "int k \<le> fst memo" using "1.prems"(4) by (simp add: memo_def)
  have dk: "snd memo ! k = dig" using mo kd by (simp add: memo_ok_def dig_def)
  have okk': "okk \<longleftrightarrow> take (nStrongCheckSumBytes j) dig
                  = take (nStrongCheckSumBytes j) (he_checksum (bh ! (i + k)))"
    by (simp add: okk_def dk)
  have unf: "strong_loop j bh data onlyone i k dn sums =
      (if okk \<and> \<not> onlyone \<and> k + 1 < nSeqMatches j
       then strong_loop j bh data onlyone i (k + 1) (fst memo) (snd memo)
       else (okk, k + 1, fst memo, snd memo))"
    apply (subst strong_loop.simps)
    unfolding memo_def okk_def dig_def Let_def
    apply (rule refl)
    done
  show ?case
  proof (cases "okk \<and> \<not> onlyone \<and> k + 1 < nSeqMatches j")
    case True
    then have rec: "strong_loop j bh data onlyone i (k + 1) (fst memo) (snd memo) = (ok, k', memo')"
      using "1.prems"(5) unf by simp
    have p: "memo_ok j data (fst memo, snd memo)" "k + 1 < 2" "int (k + 1) \<le> fst memo + 1"
      using mo True "1.prems"(2) kd by simp_all
    from "1.IH"[OF memo_def[unfolded dig_def] okk_def True p(1) "1.prems"(2) p(2,3) rec]
    have ih: "memo_ok j data memo' \<and> k + 1 < k' \<and> (k' = k + 1 + 1 \<or> k' \<le> nSeqMatches j)
     \<and> (onlyone \<longrightarrow> k' = k + 1 + 1)
     \<and> (ok \<longrightarrow> (\<forall>m. k + 1 \<le> m \<and> m < k' \<longrightarrow>
            take (nStrongCheckSumBytes j) (md4 (window data (nBlockSize j * m) (nBlockSize j)))
              = take (nStrongCheckSumBytes j) (he_checksum (bh ! (i + m)))))
     \<and> (\<not> ok \<longrightarrow>
            take (nStrongCheckSumBytes j) (md4 (window data (nBlockSize j * (k' - 1)) (nBlockSize j)))
              \<noteq> take (nStrongCheckSumBytes j) (he_checksum (bh ! (i + (k' - 1)))))" .
    have k2: "k' = k + 1 + 1 \<Longrightarrow> k' \<le> nSeqMatches j" using True by simp
    have all: "ok \<Longrightarrow> k \<le> m \<Longrightarrow> m < k' \<Longrightarrow>
            take (nStrongCheckSumBytes j) (md4 (window data (nBlockSize j * m) (nBlockSize j)))
              = take (nStrongCheckSumBytes j) (he_checksum (bh ! (i + m)))" for m
    proof (cases "m = k")
      case True
      then show ?thesis using \<open>okk \<and> \<not> onlyone \<and> k + 1 < nSeqMatches j\<close> okk' by (simp add: dig_def)
    next
      case False
      assume "ok" "k \<le> m" "m < k'"
      then show ?thesis using ih False by auto
    qed
    show ?thesis using ih k2 all True by auto
  next
    case False
    then have res: "(ok, k', memo') = (okk, k + 1, fst memo, snd memo)"
      using "1.prems"(5) unf by auto
    then have e: "ok = okk" "k' = k + 1" "memo' = memo" by simp_all
    show ?thesis using mo okk' by (auto simp add: e dig_def le_less_Suc_eq)
  qed
qed

lemma remove_walk_hash_only:
  "remove_walk fuel st p t = Some st' \<Longrightarrow> hash_only st st'"
proof (induction fuel arbitrary: p)
  case 0
  then show ?case by simp
next
  case (Suc fuel)
  show ?case
  proof (cases "deref st p")
    case None
    then show ?thesis using Suc.prems by simp
  next
    case (Some e)
    show ?thesis
    proof (cases "e = t")
      case True
      then show ?thesis using Suc.prems Some
        by (auto simp add: Let_def assign_frame hash_only_def split: if_splits)
    next
      case False
      then show ?thesis using Suc.prems Some Suc.IH by simp
    qed
  qed
qed

lemma ranges_frame:
  assumes "pRanges st' = pRanges st" "nRanges st' = nRanges st"
  shows "ranges_inv st' = ranges_inv st" "known st' = known st"
  using assms by (simp_all add: ranges_inv_def known_def)

lemma write_ids_ranges:
  "ranges_inv st \<Longrightarrow> write_ids j st ids = Some st' \<Longrightarrow>
     ranges_inv st' \<and> known st' = known st \<union> set ids"
proof (induction ids arbitrary: st)
  case Nil
  then show ?case by simp
next
  case (Cons i ids)
  from Cons.prems(2) obtain st1 where r: "removeBlockFromHash j st i = Some st1"
    and w: "write_ids j (addToRanges st1 i) ids = Some st'"
    by (auto split: option.splits)
  have ho: "hash_only st st1"
    using r unfolding removeBlockFromHash_def by (rule remove_walk_hash_only)
  then have f: "pRanges st1 = pRanges st" "nRanges st1 = nRanges st" by (simp_all add: hash_only_def)
  have inv1: "ranges_inv st1" using Cons.prems(1) ranges_frame(1)[OF f] by simp
  have k1: "known st1 = known st" using ranges_frame(2)[OF f] .
  from addToRanges_inv_known[OF inv1, of i]
  have a: "ranges_inv (addToRanges st1 i)" "known (addToRanges st1 i) = insert i (known st1)"
    by simp_all
  from Cons.IH[OF a(1) w] show ?case using a(2) k1 by auto
qed

lemma nextKnownBlock_le:
  assumes inv: "ranges_inv st" and kn: "known st \<subseteq> {0 ..< int (nBlocks j)}"
  shows "nextKnownBlock j st x = x \<or> nextKnownBlock j st x \<le> int (nBlocks j)"
proof -
  let ?r = "rangeBeforeBlock st x"
  note post = rangeBeforeBlock_post[OF inv, of x]
  show ?thesis
  proof (cases "?r = - 1")
    case True
    then show ?thesis by (simp add: nextKnownBlock_def)
  next
    case n1: False
    show ?thesis
    proof (cases "?r = int (nRanges st)")
      case True
      then show ?thesis using n1 by (simp add: nextKnownBlock_def)
    next
      case False
      from post n1 have r: "0 \<le> ?r" "?r \<le> int (nRanges st)" by (auto simp: rb_post_def)
      define k where "k = nat ?r"
      have k: "k < nRanges st" "2 * k = nat (2 * ?r)" using r False by (simp_all add: k_def)
      have "range_lo (pRanges st) k \<le> range_hi (pRanges st) k"
        using inv k(1) by (simp add: ranges_inv_def)
      then have "range_lo (pRanges st) k \<in> known st" using k(1) by (auto simp: known_iff)
      then have "range_lo (pRanges st) k < int (nBlocks j)" using kn by auto
      moreover have "nextKnownBlock j st x = range_lo (pRanges st) k"
        using n1 False k(2) by (simp add: nextKnownBlock_def range_lo_def)
      ultimately show ?thesis by simp
    qed
  qed
qed

lemma nextKnownBlock_frame:
  "pRanges st' = pRanges st \<Longrightarrow> nRanges st' = nRanges st \<Longrightarrow>
     nextKnownBlock j st' x = nextKnownBlock j st x"
  by (simp add: nextKnownBlock_def rangeBeforeBlock_def Let_def)

lemma scan_invD:
  assumes "scan_inv j st"
  shows "hash_inv j st" "ranges_inv st" "known st \<subseteq> {0 ..< int (nBlocks j)}"
    "nNextKnown st \<le> int (nBlocks j)" "\<And>m. pNextMatch st = Some m \<Longrightarrow> m < nBlocks j"
  using assms by (simp_all add: scan_inv_def)

lemma scan_invI:
  assumes "hash_inv j st" "ranges_inv st" "known st \<subseteq> {0 ..< int (nBlocks j)}"
    "nNextKnown st \<le> int (nBlocks j)" "\<And>m. pNextMatch st = Some m \<Longrightarrow> m < nBlocks j"
  shows "scan_inv j st"
  using assms by (simp add: scan_inv_def)

lemma scan_inv_other_fields [simp]:
  "scan_inv j (st\<lparr>nSkip := s\<rparr>) = scan_inv j st"
  "scan_inv j (st\<lparr>pCurrentWeakCheckSums := c\<rparr>) = scan_inv j st"
  "scan_inv j (st\<lparr>pTargetFile := f\<rparr>) = scan_inv j st"
  by (simp_all add: scan_inv_def ranges_inv_def known_def)

lemma scan_inv_next_match_None: "scan_inv j st \<Longrightarrow> scan_inv j (st\<lparr>pNextMatch := None\<rparr>)"
  by (simp add: scan_inv_def ranges_inv_def known_def)

text \<open>The full effect of \<open>writeBlocks\<close> on a state of a scan.\<close>

lemma writeBlocks_scan:
  assumes inv: "scan_inv j st" and lo: "0 \<le> bfrom" and hi: "bto < int (nBlocks j)"
  shows "\<exists>st'. writeBlocks j st data bfrom bto = Some st' \<and> scan_inv j st' \<and> keeps st st'
          \<and> rover_rank st' \<le> rover_rank st
          \<and> known st' = known st \<union> {bfrom .. bto}
          \<and> pTargetFile st' =
               qf_seek (qf_write (qf_seek (pTargetFile st) ((bfrom + nBlockIdOffset j) * 2 ^ nBlockShift j))
                          (take (nat ((bto - bfrom + 1) * 2 ^ nBlockShift j)) data))
                       (int (qf_pos (pTargetFile st)))
          \<and> pNextMatch st' = pNextMatch st \<and> nNextKnown st' = nNextKnown st
          \<and> nSkip st' = nSkip st \<and> pCurrentWeakCheckSums st' = pCurrentWeakCheckSums st"
proof -
  note d = scan_invD[OF inv]
  from writeBlocks_Some[OF d(1), of data bfrom bto]
  obtain st' where w: "writeBlocks j st data bfrom bto = Some st'" and h: "hash_inv j st'"
    and k: "keeps st st'" and r: "rover_rank st' \<le> rover_rank st"
    and f: "pTargetFile st' =
               qf_seek (qf_write (qf_seek (pTargetFile st) ((bfrom + nBlockIdOffset j) * 2 ^ nBlockShift j))
                          (take (nat ((bto - bfrom + 1) * 2 ^ nBlockShift j)) data))
                       (int (qf_pos (pTargetFile st)))"
    and o: "pNextMatch st' = pNextMatch st" "nNextKnown st' = nNextKnown st"
       "nSkip st' = nSkip st" "pCurrentWeakCheckSums st' = pCurrentWeakCheckSums st"
    by blast
  obtain f3 where wi: "write_ids j (st\<lparr>pTargetFile := f3\<rparr>) [bfrom..bto] = Some st'"
    using w by (simp add: writeBlocks_def Let_def)
  have ri: "ranges_inv (st\<lparr>pTargetFile := f3\<rparr>)" using d(2) by (simp add: ranges_inv_def)
  from write_ids_ranges[OF ri wi]
  have rr: "ranges_inv st'" "known st' = known st \<union> {bfrom .. bto}"
    by (simp_all add: known_def)
  have "known st' \<subseteq> {0 ..< int (nBlocks j)}" using rr(2) d(3) lo hi by auto
  then have "scan_inv j st'" using h rr(1) d(4,5) o by (intro scan_invI) simp_all
  then show ?thesis using w k r rr(2) f o by blast
qed

lemma qf_write_at:
  assumes "0 \<le> off"
  shows "qf_pos (qf_seek (qf_write (qf_seek f off) bs) (int (qf_pos f))) = qf_pos f"
    and "qf_writes (qf_seek (qf_write (qf_seek f off) bs) (int (qf_pos f)))
           = qf_writes f @ (if bs = [] then [] else [(nat off, bs)])"
proof -
  have n: "\<not> off < 0" using assms by simp
  show "qf_pos (qf_seek (qf_write (qf_seek f off) bs) (int (qf_pos f))) = qf_pos f"
    by (simp add: qf_seek_def)
  show "qf_writes (qf_seek (qf_write (qf_seek f off) bs) (int (qf_pos f)))
           = qf_writes f @ (if bs = [] then [] else [(nat off, bs)])"
    using n by (simp add: qf_seek_def qf_write_def Let_def)
qed

lemma scan_rel_refl [simp]: "scan_rel j st st"
  by (simp add: scan_rel_def)

lemma scan_rel_trans:
  assumes "scan_rel j st st'" "scan_rel j st' st''"
  shows "scan_rel j st st''"
proof -
  from assms(1) obtain ws where 1: "keeps st st'" "qf_pos (pTargetFile st') = qf_pos (pTargetFile st)"
     "qf_writes (pTargetFile st') = qf_writes (pTargetFile st) @ ws"
     "\<forall>w \<in> set ws. write_gated j (map he_checksum (pBlockHashes st)) w"
    by (auto simp: scan_rel_def)
  from assms(2) obtain ws' where 2: "keeps st' st''" "qf_pos (pTargetFile st'') = qf_pos (pTargetFile st')"
     "qf_writes (pTargetFile st'') = qf_writes (pTargetFile st') @ ws'"
     "\<forall>w \<in> set ws'. write_gated j (map he_checksum (pBlockHashes st')) w"
    by (auto simp: scan_rel_def)
  have cs: "map he_checksum (pBlockHashes st') = map he_checksum (pBlockHashes st)"
    using 1(1) by (simp add: keeps_def)
  have "qf_writes (pTargetFile st'') = qf_writes (pTargetFile st) @ (ws @ ws')"
    using 1(3) 2(3) by simp
  moreover have "\<forall>w \<in> set (ws @ ws'). write_gated j (map he_checksum (pBlockHashes st)) w"
    using 1(4) 2(4) cs by auto
  ultimately show ?thesis
    unfolding scan_rel_def using keeps_trans[OF 1(1) 2(1)] 1(2) 2(2) by metis
qed

lemma scan_rel_fields [simp]:
  "scan_rel j st (st'\<lparr>pRover := r\<rparr>) = scan_rel j st st'"
  "scan_rel j st (st'\<lparr>pNextMatch := m\<rparr>) = scan_rel j st st'"
  "scan_rel j st (st'\<lparr>nNextKnown := nk\<rparr>) = scan_rel j st st'"
  "scan_rel j st (st'\<lparr>nSkip := s\<rparr>) = scan_rel j st st'"
  "scan_rel j st (st'\<lparr>pCurrentWeakCheckSums := c\<rparr>) = scan_rel j st st'"
  by (simp_all add: scan_rel_def)

lemma scan_inv_rover:
  assumes "scan_inv j st" "\<And>n. v = Some n \<Longrightarrow> n < nBlocks j"
  shows "scan_inv j (st\<lparr>pRover := v\<rparr>)"
proof -
  note d = scan_invD[OF assms(1)]
  have "hash_inv j (st\<lparr>pRover := v\<rparr>)" using hash_inv_rover[OF d(1) assms(2)] by simp
  moreover have "ranges_inv (st\<lparr>pRover := v\<rparr>)" "known (st\<lparr>pRover := v\<rparr>) = known st"
    using d(2) by (simp_all add: ranges_inv_def known_def)
  ultimately show ?thesis using d(3,4,5) by (intro scan_invI) simp_all
qed

lemma scan_inv_next_match:
  assumes "scan_inv j st" "\<And>n. v = Some n \<Longrightarrow> n < nBlocks j" "nk \<le> int (nBlocks j)"
  shows "scan_inv j (st\<lparr>pNextMatch := v, nNextKnown := nk\<rparr>)"
proof -
  note d = scan_invD[OF assms(1)]
  have "hash_inv j (st\<lparr>pNextMatch := v, nNextKnown := nk\<rparr>)" using d(1) by simp
  moreover have "ranges_inv (st\<lparr>pNextMatch := v, nNextKnown := nk\<rparr>)"
     "known (st\<lparr>pNextMatch := v, nNextKnown := nk\<rparr>) = known st"
    using d(2) by (simp_all add: ranges_inv_def known_def)
  ultimately show ?thesis using d(3) assms(2,3) by (intro scan_invI) simp_all
qed

lemma rover_rank_fields [simp]:
  "rover_rank (st\<lparr>pNextMatch := m\<rparr>) = rover_rank st"
  "rover_rank (st\<lparr>nNextKnown := nk\<rparr>) = rover_rank st"
  "rover_rank (st\<lparr>nSkip := s\<rparr>) = rover_rank st"
  "rover_rank (st\<lparr>pCurrentWeakCheckSums := c\<rparr>) = rover_rank st"
  "rover_rank (st\<lparr>pTargetFile := f\<rparr>) = rover_rank st"
  by (simp_all add: rover_rank_def split: option.splits)

lemma rover_rank_pos:
  assumes "hash_inv j st" "0 < nSeqMatches j" "pRover st = Some e"
  shows "0 < rover_rank st"
  using hash_inv_roverD[OF assms(1,3)] hash_inv_length[OF assms(1)] assms(2,3)
  by (simp add: rover_rank_def)

lemma rover_rank_zero:
  assumes "hash_inv j st" "0 < nSeqMatches j" "rover_rank st = 0"
  shows "pRover st = None"
proof (cases "pRover st")
  case None then show ?thesis .
next
  case (Some e)
  from rover_rank_pos[OF assms(1,2) Some] assms(3) show ?thesis by simp
qed

lemma chain_step_post:
  assumes wf: "job_wf j" and inv: "scan_inv j st" and rv: "pRover st = Some e"
    and mo: "memo_ok j data memo" and len: "nContext j \<le> length data"
  shows "\<exists>memo' got' st'. chain_step j data onlyone memo got st e = Some (memo', got', st')
           \<and> scan_inv j st' \<and> memo_ok j data memo' \<and> rover_rank st' < rover_rank st
           \<and> scan_rel j st st' \<and> nSkip st' = nSkip st
           \<and> pCurrentWeakCheckSums st' = pCurrentWeakCheckSums st"
proof -
  note d = scan_invD[OF inv]
  define bh where "bh = pBlockHashes st"
  define st1 where "st1 = st\<lparr>pRover := (if onlyone then None else he_next (bh ! e))\<rparr>"
  define c1 where "c1 \<longleftrightarrow> rs_a (he_r (bh ! e)) \<noteq> (rs_a (fst (pCurrentWeakCheckSums st)) AND pWeakCheckSumMask j)
            \<or> rs_b (he_r (bh ! e)) \<noteq> rs_b (fst (pCurrentWeakCheckSums st))"
  define c2 where "c2 \<longleftrightarrow> \<not> onlyone \<and> nSeqMatches j > 1
            \<and> (rs_a (he_r (bh ! (e + 1))) \<noteq> (rs_a (snd (pCurrentWeakCheckSums st)) AND pWeakCheckSumMask j)
                \<or> rs_b (he_r (bh ! (e + 1))) \<noteq> rs_b (snd (pCurrentWeakCheckSums st)))"
  obtain ok k memo' where sl: "strong_loop j bh data onlyone e 0 (fst memo) (snd memo) = (ok, k, memo')"
    by (cases "strong_loop j bh data onlyone e 0 (fst memo) (snd memo)") auto
  define nk where "nk = (if onlyone then nNextKnown st1 else nextKnownBlock j st1 (int e))"
  define num where "num = (if nk > int e + int k then int k else nk - int e)"
  define st2 where "st2 = (if nk > int e + int k
                            then st1\<lparr>pNextMatch := Some (e + k),
                                     nNextKnown := (if onlyone then nNextKnown st1 else nk)\<rparr>
                            else st1)"
  have unf: "chain_step j data onlyone memo got st e =
      (if c1 then Some (memo, got, st1)
       else if c2 then Some (memo, got, st1)
       else if ok then
              (case writeBlocks j st2 data (int e) (int e + num - 1) of
                 None \<Rightarrow> None
               | Some st3 \<Rightarrow> Some (memo', got + num, st3))
            else Some (memo', got, st1))"
    unfolding chain_step_def Let_def c1_def c2_def num_def st2_def nk_def st1_def bh_def
      sl[unfolded bh_def] prod.case
    by (rule refl)
  have seq: "0 < nSeqMatches j" "nSeqMatches j \<le> 2" using wf by (simp_all add: job_wf_def)
  have e: "e < nBlocks j" using hash_inv_roverD[OF d(1) rv] .
  have el: "e < length bh" using hash_inv_block_lt[OF d(1) e] by (simp add: bh_def)
  have nx: "\<And>n. (if onlyone then None else he_next (bh ! e)) = Some n \<Longrightarrow> n < nBlocks j \<and> e < n"
    using hash_inv_nextD[OF d(1), of e] el by (auto simp: bh_def split: if_splits)
  have inv1: "scan_inv j st1" unfolding st1_def using nx by (intro scan_inv_rover[OF inv]) simp
  have r1: "rover_rank st1 < rover_rank st"
  proof (cases "if onlyone then None else he_next (bh ! e)")
    case None
    then have "rover_rank st1 = 0" by (simp add: st1_def rover_rank_def)
    then show ?thesis using rover_rank_pos[OF d(1) seq(1) rv] by simp
  next
    case (Some n)
    from nx[OF Some] have "e < n" "n < length bh" using hash_inv_block_lt[OF d(1)] by (simp_all add: bh_def)
    then show ?thesis using Some rv by (simp add: st1_def rover_rank_def bh_def)
  qed
  have rel1: "scan_rel j st st1" by (simp add: st1_def)
  have f1: "nSkip st1 = nSkip st" "pCurrentWeakCheckSums st1 = pCurrentWeakCheckSums st"
    "pTargetFile st1 = pTargetFile st" "pBlockHashes st1 = pBlockHashes st"
    "nNextKnown st1 = nNextKnown st" "pRanges st1 = pRanges st" "nRanges st1 = nRanges st"
    by (simp_all add: st1_def)
  have easy: "chain_step j data onlyone memo got st e = Some (m, got, st1) \<Longrightarrow> memo_ok j data m \<Longrightarrow> ?thesis" for m
    using inv1 r1 rel1 f1(1,2) by blast
  have mo0: "memo_ok j data (fst memo, snd memo)" "int 0 \<le> fst memo + 1"
    using mo by (simp_all add: memo_ok_def)
  from strong_loop_post[OF mo0(1) seq(2) _ mo0(2) sl]
  have sp: "memo_ok j data memo'" "0 < k" "k = 1 \<or> k \<le> nSeqMatches j"
     "ok \<Longrightarrow> m < k \<Longrightarrow>
            take (nStrongCheckSumBytes j) (md4 (window data (nBlockSize j * m) (nBlockSize j)))
              = take (nStrongCheckSumBytes j) (he_checksum (bh ! (e + m)))" for m
    by simp_all
  have kseq: "k \<le> nSeqMatches j" using sp(3) seq(1) by auto
  show ?thesis
  proof (cases "c1 \<or> c2")
    case True
    then have "chain_step j data onlyone memo got st e = Some (memo, got, st1)"
      using unf by auto
    then show ?thesis using mo by (rule easy)
  next
    case nc: False
    show ?thesis
    proof (cases ok)
      case False
      then have "chain_step j data onlyone memo got st e = Some (memo', got, st1)"
        using unf nc by auto
      then show ?thesis using sp(1) by (rule easy)
    next
      case True
      have nkb: "nk = int e \<or> nk \<le> int (nBlocks j)"
      proof (cases onlyone)
        case True
        then show ?thesis using d(4) by (simp add: nk_def f1)
      next
        case False
        have "nextKnownBlock j st1 (int e) = nextKnownBlock j st (int e)"
          by (rule nextKnownBlock_frame) (simp_all add: f1)
        then show ?thesis using False nextKnownBlock_le[OF d(2,3), of "int e"] by (simp add: nk_def)
      qed
      have inv2: "scan_inv j st2"
      proof (cases "nk > int e + int k")
        case True
        then have "nk \<le> int (nBlocks j)" using nkb by auto
        moreover then have "e + k < nBlocks j" using True by simp
        moreover have "nNextKnown st1 \<le> int (nBlocks j)" using d(4) by (simp add: f1)
        ultimately have "scan_inv j (st1\<lparr>pNextMatch := Some (e + k),
                                     nNextKnown := (if onlyone then nNextKnown st1 else nk)\<rparr>)"
          by (intro scan_inv_next_match[OF inv1]) auto
        then show ?thesis unfolding st2_def using True by simp
      next
        case False
        then show ?thesis using inv1 by (simp add: st2_def)
      qed
      have hi: "int e + num - 1 < int (nBlocks j)"
        using nkb e by (auto simp: num_def split: if_splits)
      from writeBlocks_scan[OF inv2 _ hi, where data = data and bfrom = "int e"]
      obtain st3 where w: "writeBlocks j st2 data (int e) (int e + num - 1) = Some st3"
        and inv3: "scan_inv j st3" and k3: "keeps st2 st3" and r3: "rover_rank st3 \<le> rover_rank st2"
        and f3: "pTargetFile st3 =
               qf_seek (qf_write (qf_seek (pTargetFile st2) ((int e + nBlockIdOffset j) * 2 ^ nBlockShift j))
                          (take (nat ((int e + num - 1 - int e + 1) * 2 ^ nBlockShift j)) data))
                       (int (qf_pos (pTargetFile st2)))"
        and o3: "nSkip st3 = nSkip st2" "pCurrentWeakCheckSums st3 = pCurrentWeakCheckSums st2"
        by auto
      have res: "chain_step j data onlyone memo got st e = Some (memo', got + num, st3)"
        using unf nc True w by auto
      have f2: "nSkip st2 = nSkip st" "pCurrentWeakCheckSums st2 = pCurrentWeakCheckSums st"
        "pTargetFile st2 = pTargetFile st" "keeps st st2" "rover_rank st2 = rover_rank st1"
        by (simp_all add: st2_def f1) (simp add: st1_def)
      define bytes where "bytes = take (nat (num * 2 ^ nBlockShift j)) data"
      define off where "off = (int e + nBlockIdOffset j) * 2 ^ nBlockShift j"
      have off0: "0 \<le> off" using wf by (simp add: off_def job_wf_def)
      have f3': "pTargetFile st3 = qf_seek (qf_write (qf_seek (pTargetFile st) off) bytes)
                       (int (qf_pos (pTargetFile st)))"
        using f3 by (simp add: f2 bytes_def off_def)
      note fw = qf_write_at[OF off0, of "pTargetFile st" bytes, folded f3']
      have gated: "bytes \<noteq> [] \<Longrightarrow> write_gated j (map he_checksum (pBlockHashes st)) (nat off, bytes)"
      proof -
        assume ne: "bytes \<noteq> []"
        have np: "0 < num"
        proof (rule ccontr)
          assume "\<not> 0 < num"
          then have "num * 2 ^ nBlockShift j \<le> 0" by (simp add: mult_le_0_iff)
          then show False using ne by (simp add: bytes_def)
        qed
        have nle: "num \<le> int k" by (auto simp: num_def)
        define n where "n = nat num"
        have n: "0 < n" "n \<le> k" "int n = num" using np nle by (simp_all add: n_def)
        have "n * nBlockSize j \<le> nSeqMatches j * nBlockSize j" using n(2) kseq by simp
        moreover have "nSeqMatches j * nBlockSize j = nContext j" using wf by (simp add: job_wf_def)
        ultimately have nl: "n * nBlockSize j \<le> length data" using len by linarith
        have b: "bytes = take (n * 2 ^ nBlockShift j) data"
          using np by (simp add: bytes_def n_def nat_mult_distrib nat_power_eq)
        have sm: "strong_match j (map he_checksum (pBlockHashes st)) data e n"
          unfolding strong_match_def
        proof (intro allI impI)
          fix m assume m: "m < n"
          then have "m < k" using n(2) by simp
          from sp(4)[OF True this]
          have "take (nStrongCheckSumBytes j) (md4 (window data (nBlockSize j * m) (nBlockSize j)))
              = take (nStrongCheckSumBytes j) (he_checksum (bh ! (e + m)))" .
          moreover have "e + m < length bh"
            using e \<open>m < k\<close> kseq hash_inv_length[OF d(1)] by (simp add: bh_def)
          ultimately show "take (nStrongCheckSumBytes j)
              (md4 (window data (nBlockSize j * m) (nBlockSize j)))
              = take (nStrongCheckSumBytes j) (map he_checksum (pBlockHashes st) ! (e + m))"
            by (simp add: bh_def)
        qed
        show ?thesis unfolding write_gated_def
          using n(1) nl b sm by (auto simp: off_def)
      qed
      have rel: "scan_rel j st st3"
        unfolding scan_rel_def
      proof (intro conjI)
        show "keeps st st3" using keeps_trans[OF f2(4) k3] .
        show "qf_pos (pTargetFile st3) = qf_pos (pTargetFile st)" using fw(1) .
        show "\<exists>ws. qf_writes (pTargetFile st3) = qf_writes (pTargetFile st) @ ws
            \<and> (\<forall>w \<in> set ws. write_gated j (map he_checksum (pBlockHashes st)) w)"
          using fw(2) gated by (cases "bytes = []") auto
      qed
      have "rover_rank st3 < rover_rank st" using r3 f2(5) r1 by simp
      then show ?thesis using res inv3 sp(1) rel o3 f2(1,2) by auto
    qed
  qed
qed

lemma chain_loop_post:
  assumes wf: "job_wf j" and len: "nContext j \<le> length data"
  shows "scan_inv j st \<Longrightarrow> memo_ok j data memo \<Longrightarrow> rover_rank st < fuel \<Longrightarrow>
     \<exists>got' st'. chain_loop fuel j data onlyone memo got st = Some (got', st')
        \<and> scan_inv j st' \<and> scan_rel j st st' \<and> nSkip st' = nSkip st
        \<and> pCurrentWeakCheckSums st' = pCurrentWeakCheckSums st"
proof (induction fuel arbitrary: st memo got)
  case 0
  then show ?case by simp
next
  case (Suc fuel)
  show ?case
  proof (cases "pRover st")
    case None
    then show ?thesis using Suc.prems(1) by simp
  next
    case (Some e)
    from chain_step_post[OF wf Suc.prems(1) Some Suc.prems(2) len, of onlyone got]
    obtain memo1 got1 st1 where s: "chain_step j data onlyone memo got st e = Some (memo1, got1, st1)"
      and i1: "scan_inv j st1" and m1: "memo_ok j data memo1" and r1: "rover_rank st1 < rover_rank st"
      and rel1: "scan_rel j st st1" and f1: "nSkip st1 = nSkip st"
         "pCurrentWeakCheckSums st1 = pCurrentWeakCheckSums st"
      by blast
    have "rover_rank st1 < fuel" using r1 Suc.prems(3) by simp
    from Suc.IH[OF i1 m1 this, of got1]
    obtain got' st' where l: "chain_loop fuel j data onlyone memo1 got1 st1 = Some (got', st')"
      and i': "scan_inv j st'" and rel': "scan_rel j st1 st'" and f': "nSkip st' = nSkip st1"
         "pCurrentWeakCheckSums st' = pCurrentWeakCheckSums st1"
      by blast
    have "chain_loop (Suc fuel) j data onlyone memo got st = Some (got', st')"
      using Some s l by simp
    then show ?thesis using i' scan_rel_trans[OF rel1 rel'] f1 f' by simp
  qed
qed

lemma checkCheckSumsOnHashChain_post:
  assumes wf: "job_wf j" and inv: "scan_inv j st" and e: "\<And>n. e = Some n \<Longrightarrow> n < nBlocks j"
    and len: "nContext j \<le> length data"
  shows "\<exists>got st'. checkCheckSumsOnHashChain j st e data onlyone = Some (got, st')
        \<and> scan_inv j st' \<and> scan_rel j st st' \<and> nSkip st' = nSkip st
        \<and> pCurrentWeakCheckSums st' = pCurrentWeakCheckSums st"
proof -
  let ?st0 = "st\<lparr>pNextMatch := None, pRover := e\<rparr>"
  have i0: "scan_inv j ?st0"
    using scan_inv_rover[OF scan_inv_next_match_None[OF inv], of e] e by simp
  have r0: "rover_rank ?st0 < length (pBlockHashes st) + 1"
    by (auto simp add: rover_rank_def less_Suc_eq_le split: option.splits)
  from chain_loop_post[OF wf len i0 memo_ok_init r0, of onlyone 0]
  obtain got st' where "chain_loop (length (pBlockHashes st) + 1) j data onlyone
       (- 1, replicate 2 (replicate CHECKSUM_SIZE 0)) 0 ?st0 = Some (got, st')"
    and "scan_inv j st'" and "scan_rel j ?st0 st'" and "nSkip st' = nSkip ?st0"
         "pCurrentWeakCheckSums st' = pCurrentWeakCheckSums ?st0"
    by blast
  moreover have "scan_rel j st ?st0" by simp
  ultimately show ?thesis
    unfolding checkCheckSumsOnHashChain_def using scan_rel_trans[of j st ?st0 st'] by simp
qed

lemma match_window_post:
  assumes wf: "job_wf j" and inv: "scan_inv j st" and len: "x + nContext j \<le> length data"
  shows "\<exists>tm bm st'. match_window j st data x = Some (tm, bm, st')
        \<and> scan_inv j st' \<and> scan_rel j st st' \<and> nSkip st' = nSkip st
        \<and> pCurrentWeakCheckSums st' = pCurrentWeakCheckSums st
        \<and> (bm = 0 \<or> bm = 1 \<or> bm = nSeqMatches j)"
proof -
  have dl: "nContext j \<le> length (drop x data)" using len by simp
  define first where "first = (if pNextMatch st \<noteq> None \<and> nSeqMatches j > 1
            then (case checkCheckSumsOnHashChain j st (pNextMatch st) (drop x data) True of
                    None \<Rightarrow> None
                  | Some (thismatch, st') \<Rightarrow>
                      Some (thismatch, if thismatch \<noteq> 0 then 1 else 0 :: nat, st'))
            else Some (0, 0, st))"
  have "\<exists>tm bm st1. first = Some (tm, bm, st1) \<and> scan_inv j st1 \<and> scan_rel j st st1
        \<and> nSkip st1 = nSkip st \<and> pCurrentWeakCheckSums st1 = pCurrentWeakCheckSums st
        \<and> (bm = 0 \<or> bm = 1)"
  proof (cases "pNextMatch st \<noteq> None \<and> nSeqMatches j > 1")
    case True
    from checkCheckSumsOnHashChain_post[OF wf inv _ dl, where e = "pNextMatch st" and onlyone = True]
      scan_invD(5)[OF inv]
    obtain got st' where "checkCheckSumsOnHashChain j st (pNextMatch st) (drop x data) True = Some (got, st')"
      "scan_inv j st'" "scan_rel j st st'" "nSkip st' = nSkip st"
      "pCurrentWeakCheckSums st' = pCurrentWeakCheckSums st"
      by blast
    then show ?thesis using True by (simp add: first_def)
  next
    case False
    then show ?thesis using inv by (auto simp add: first_def)
  qed
  then obtain tm bm st1 where f: "first = Some (tm, bm, st1)" and i1: "scan_inv j st1"
    and rel1: "scan_rel j st st1" and f1: "nSkip st1 = nSkip st"
      "pCurrentWeakCheckSums st1 = pCurrentWeakCheckSums st" and bm: "bm = 0 \<or> bm = 1"
    by blast
  define hash where "hash = current_hash j st1"
  define e where "e = pRsumHash st1 ! unat (hash AND pHashMask st1)"
  define hit where "hit \<longleftrightarrow> (pBitHash st1 ! unat (drop_bit 3 (hash AND pBitHashMask st1)))
                     AND ucast (push_bit (unat (hash AND 7)) (1 :: 32 word)) \<noteq> 0 \<and> e \<noteq> None"
  have unf: "match_window j st data x =
     (if tm = 0 then
        (if hit
         then (case checkCheckSumsOnHashChain j st1 e (drop x data) False of
                        None \<Rightarrow> None
                      | Some (thismatch', st2) \<Rightarrow>
                          Some (thismatch',
                                if thismatch' \<noteq> 0 then nSeqMatches j else bm, st2))
         else Some (tm, bm, st1))
      else Some (tm, bm, st1))"
    unfolding match_window_def first_def[symmetric] f hit_def e_def hash_def Let_def
    by simp
  show ?thesis
  proof (cases "tm = 0 \<and> hit")
    case False
    then have "match_window j st data x = Some (tm, bm, st1)" using unf by auto
    then show ?thesis using i1 rel1 f1 bm by auto
  next
    case True
    note d1 = scan_invD[OF i1]
    have "unat (hash AND pHashMask st1) < length (pRsumHash st1)"
      using hash_inv_tab_length[OF d1(1)] unat_and_mask_less[of hash "pHashMask st1"] by simp
    then have eb: "\<And>n. e = Some n \<Longrightarrow> n < nBlocks j"
      using hash_inv_bucketD[OF d1(1)] by (simp add: e_def)
    from checkCheckSumsOnHashChain_post[OF wf i1 eb dl, where onlyone = False]
    obtain got st2 where c: "checkCheckSumsOnHashChain j st1 e (drop x data) False = Some (got, st2)"
      and i2: "scan_inv j st2" and rel2: "scan_rel j st1 st2" and f2: "nSkip st2 = nSkip st1"
      "pCurrentWeakCheckSums st2 = pCurrentWeakCheckSums st1"
      by blast
    have "match_window j st data x = Some (got, if got \<noteq> 0 then nSeqMatches j else bm, st2)"
      using unf True c by simp
    then show ?thesis using i2 scan_rel_trans[OF rel1 rel2] f1 f2 bm by auto
  qed
qed

lemma scan_loop_post:
  assumes wf: "job_wf j" and dl: "len \<le> length data"
  shows "scan_inv j st \<Longrightarrow> nSkip st < nContext j \<Longrightarrow> x + nContext j \<le> len
     \<Longrightarrow> len - (x + nContext j) < fuel \<Longrightarrow>
     \<exists>got' st'. scan_loop fuel j data len x got st = Some (got', st')
        \<and> scan_inv j st' \<and> scan_rel j st st' \<and> nSkip st' < nContext j"
proof (induction fuel arbitrary: x got st)
  case 0
  then show ?case by simp
next
  case (Suc fuel)
  show ?case
  proof (cases "x + nContext j = len")
    case True
    then show ?thesis using Suc.prems(1,2) by simp
  next
    case ne: False
    have xl: "x + nContext j \<le> length data" using Suc.prems(3) dl by simp
    from match_window_post[OF wf Suc.prems(1) xl]
    obtain tm bm st1 where mw: "match_window j st data x = Some (tm, bm, st1)"
      and i1: "scan_inv j st1" and rel1: "scan_rel j st st1" and f1: "nSkip st1 = nSkip st"
      and bm: "bm = 0 \<or> bm = 1 \<or> bm = nSeqMatches j"
      by blast
    define x' where "x' = x + nBlockSize j + (if bm > 1 then nBlockSize j else 0)"
    have wfd: "0 < nBlockSize j" "0 < nSeqMatches j" "nContext j = nBlockSize j * nSeqMatches j"
      using wf by (simp_all add: job_wf_def)
    have IH: "\<exists>got' st'. scan_loop fuel j data len y g (st1\<lparr>pCurrentWeakCheckSums := c\<rparr>) = Some (got', st')
        \<and> scan_inv j st' \<and> scan_rel j st st' \<and> nSkip st' < nContext j"
      if "x < y" "y + nContext j \<le> len" for y g c
    proof -
      have a: "scan_inv j (st1\<lparr>pCurrentWeakCheckSums := c\<rparr>)" using i1 by simp
      have b: "nSkip (st1\<lparr>pCurrentWeakCheckSums := c\<rparr>) < nContext j" using f1 Suc.prems(2) by simp
      have c: "len - (y + nContext j) < fuel" using that Suc.prems(3,4) by linarith
      from Suc.IH[OF a b that(2) c, of g]
      obtain got' st' where "scan_loop fuel j data len y g (st1\<lparr>pCurrentWeakCheckSums := c\<rparr>) = Some (got', st')"
        "scan_inv j st'" "scan_rel j (st1\<lparr>pCurrentWeakCheckSums := c\<rparr>) st'" "nSkip st' < nContext j"
        by blast
      moreover have "scan_rel j st (st1\<lparr>pCurrentWeakCheckSums := c\<rparr>)" using rel1 by simp
      ultimately show ?thesis using scan_rel_trans by blast
    qed
    show ?thesis
    proof (cases "bm = 0")
      case True
      have "x < x + 1" "x + 1 + nContext j \<le> len" using ne Suc.prems(3) by simp_all
      note ih = IH[OF this]
      have "\<exists>c. scan_loop (Suc fuel) j data len x got st
            = scan_loop fuel j data len (x + 1) (got + tm) (st1\<lparr>pCurrentWeakCheckSums := c\<rparr>)"
        using ne mw True by (auto simp add: Let_def)
      then obtain c where "scan_loop (Suc fuel) j data len x got st
            = scan_loop fuel j data len (x + 1) (got + tm) (st1\<lparr>pCurrentWeakCheckSums := c\<rparr>)" ..
      then show ?thesis using ih[of "got + tm" c] by simp
    next
      case nz: False
      show ?thesis
      proof (cases "x' + nContext j > len")
        case True
        have "x' + nContext j - len < nContext j"
        proof (cases "bm > 1")
          case True
          then have "nSeqMatches j \<ge> 2" using bm by auto
          then have "2 * nBlockSize j \<le> nContext j" using wfd(3) by simp
          moreover have "x + nContext j < len" using ne Suc.prems(3) by simp
          moreover have "x' = x + nBlockSize j + nBlockSize j" using True by (simp add: x'_def)
          ultimately show ?thesis using wfd(1) by linarith
        next
          case False
          have "nBlockSize j \<le> nContext j" using wfd by simp
          moreover have "x + nContext j < len" using ne Suc.prems(3) by simp
          moreover have "x' = x + nBlockSize j" using False by (simp add: x'_def)
          ultimately show ?thesis using wfd(1) by linarith
        qed
        moreover have "scan_loop (Suc fuel) j data len x got st
            = Some (got + tm, st1\<lparr>nSkip := x' + nContext j - len\<rparr>)"
          using True
          by (simp only: scan_loop.simps ne if_False mw option.case prod.case Let_def nz
              not_False_eq_True if_True x'_def[symmetric])
        ultimately show ?thesis using i1 rel1 by simp
      next
        case False
        have "x < x'" using wfd(1) by (simp add: x'_def)
        moreover have "x' + nContext j \<le> len" using False by simp
        ultimately have ih: "\<exists>got' st'. scan_loop fuel j data len x' g (st1\<lparr>pCurrentWeakCheckSums := c\<rparr>) = Some (got', st')
            \<and> scan_inv j st' \<and> scan_rel j st st' \<and> nSkip st' < nContext j" for g c
          by (rule IH)
        have "\<exists>c. scan_loop (Suc fuel) j data len x got st
            = (if x' + nContext j > len then Some (got + tm, st1\<lparr>nSkip := x' + nContext j - len\<rparr>)
               else scan_loop fuel j data len x' (got + tm) (st1\<lparr>pCurrentWeakCheckSums := c\<rparr>))"
          apply (simp only: scan_loop.simps ne if_False mw option.case prod.case Let_def nz
              not_False_eq_True if_True x'_def[symmetric])
          apply (rule exI, rule refl)
          done
        then obtain c where "scan_loop (Suc fuel) j data len x got st
            = scan_loop fuel j data len x' (got + tm) (st1\<lparr>pCurrentWeakCheckSums := c\<rparr>)"
          using False by auto
        then show ?thesis using ih[of "got + tm" c] by simp
      qed
    qed
  qed
qed

lemma submitSourceData_post:
  assumes wf: "job_wf j" and inv: "scan_inv j st" and dl: "len \<le> length data"
    and x: "(if offset \<noteq> 0 then nSkip st else 0) + nContext j \<le> len"
  shows "\<exists>got st'. submitSourceData j st data len offset = Some (got, st')
        \<and> scan_inv j st' \<and> scan_rel j st st' \<and> nSkip st' < nContext j"
proof -
  define x0 where "x0 = (if offset \<noteq> 0 then nSkip st else 0)"
  define st1 where "st1 = (if offset \<noteq> 0 then st else st\<lparr>pNextMatch := None\<rparr>)"
  define st2 where "st2 = (if x0 \<noteq> 0 \<or> offset = 0
                 then st1\<lparr>pCurrentWeakCheckSums :=
                        (calc_rsum_block (window data x0 (nBlockSize j)),
                         if nSeqMatches j > 1 then calc_rsum_block (window data (x0 + nBlockSize j) (nBlockSize j))
                         else snd (pCurrentWeakCheckSums st1))\<rparr>
                 else st1)"
  have e: "submitSourceData j st data len offset = scan_loop (len + 1) j data len x0 0 (st2\<lparr>nSkip := 0\<rparr>)"
    unfolding submitSourceData_def Let_def x0_def st1_def st2_def by (rule refl)
  have i1: "scan_inv j st1" "scan_rel j st st1"
    using inv scan_inv_next_match_None[OF inv] by (simp_all add: st1_def)
  have i2: "scan_inv j (st2\<lparr>nSkip := 0\<rparr>)" "scan_rel j st (st2\<lparr>nSkip := 0\<rparr>)"
    using i1 by (simp_all add: st2_def)
  have c: "0 < nContext j" using wf by (simp add: job_wf_def)
  then have s: "nSkip (st2\<lparr>nSkip := 0\<rparr>) < nContext j" by simp
  have f: "len - (x0 + nContext j) < len + 1" by simp
  from scan_loop_post[OF wf dl i2(1) s x[folded x0_def] f, of 0]
  obtain got st' where "scan_loop (len + 1) j data len x0 0 (st2\<lparr>nSkip := 0\<rparr>) = Some (got, st')"
    "scan_inv j st'" "scan_rel j (st2\<lparr>nSkip := 0\<rparr>) st'" "nSkip st' < nContext j"
    by blast
  then show ?thesis using e scan_rel_trans[OF i2(2)] by auto
qed





lemma ready_state_scan_inv: "scan_inv (job_of info) (ready_state info)"
proof -
  obtain err st1 where p: "parseTargetFileCheckSumBlocks (job_of info) (init_state info) = (err, st1)"
    by (cases "parseTargetFileCheckSumBlocks (job_of info) (init_state info)") auto
  note f = parse_frame[OF p]
  have r: "ready_state info = snd (buildHash (job_of info) st1)"
    by (simp add: ready_state_def p)
  have "pRanges (ready_state info) = []" "nRanges (ready_state info) = 0"
    "nNextKnown (ready_state info) = 0" "pNextMatch (ready_state info) = None"
    using f by (simp_all add: r buildHash_fields init_state_def)
  then show ?thesis
    using ready_state_hash_inv[of info]
    by (intro scan_invI) (simp_all add: ranges_inv_def known_def)
qed

section \<open>Writing blocks\<close>

text \<open>
  C7 (amended). A call \<open>writeBlocks(data, bfrom, bto)\<close> with \<open>bfrom \<le> bto\<close> for ids of
  blocks returns; it makes one write, of the first \<open>(bto - bfrom + 1) << block_shift\<close> bytes
  of \<open>data\<close> at the offset \<open>(bfrom + block_id_offset) << block_shift\<close>; the position of the
  file is afterwards what it was before; every byte of the file outside the written range
  is unchanged (a byte between the old end of the file and the written range is zero). The
  number of bytes is \<open>(bto - bfrom + 1) * block_size\<close> when the block size is
  \<open>2 ^ block_shift\<close>.
\<close>

theorem writeBlocks_effect:
  assumes "hash_inv j st" and "0 \<le> bfrom" and "bfrom \<le> bto" and "bto < int (nBlocks j)"
    and "0 \<le> bfrom + nBlockIdOffset j"
    and "n = nat ((bto - bfrom + 1) * 2 ^ nBlockShift j)"
    and "off = nat ((bfrom + nBlockIdOffset j) * 2 ^ nBlockShift j)"
    and "n \<le> length data"
  shows "\<exists>st'. writeBlocks j st data bfrom bto = Some st'
     \<and> qf_pos (pTargetFile st') = qf_pos (pTargetFile st)
     \<and> qf_writes (pTargetFile st') = qf_writes (pTargetFile st) @ [(off, take n data)]
     \<and> length (qf_bytes (pTargetFile st')) = max (length (qf_bytes (pTargetFile st))) (off + n)
     \<and> (\<forall>i < n. qf_bytes (pTargetFile st') ! (off + i) = data ! i)
     \<and> (\<forall>i < length (qf_bytes (pTargetFile st')). i < off \<or> off + n \<le> i \<longrightarrow>
           qf_bytes (pTargetFile st') ! i
             = (if i < length (qf_bytes (pTargetFile st)) then qf_bytes (pTargetFile st) ! i else 0))
     \<and> (nBlockSize j = 2 ^ nBlockShift j \<longrightarrow> n = nat (bto - bfrom + 1) * nBlockSize j)"
proof -
  have "nBlockSize j = 2 ^ nBlockShift j \<longrightarrow> n = nat (bto - bfrom + 1) * nBlockSize j"
    using assms(3,6) by (simp add: nat_mult_distrib nat_power_eq)
  with writeBlocks_effect_gen[OF assms(1,3,5,6,7,8)] show ?thesis by blast
qed

theorem writeBlocks_effect_witness:
  "hash_inv (job_of (stream_information 2 (Some \<lparr>qb_bytes = replicate 40 0, qb_opens = True\<rparr>))) (ready_state (stream_information 2 (Some \<lparr>qb_bytes = replicate 40 0, qb_opens = True\<rparr>)))
   \<and> (0::int) \<le> 1 \<and> (1::int) < int (nBlocks (job_of (stream_information 2 (Some \<lparr>qb_bytes = replicate 40 0, qb_opens = True\<rparr>))))
   \<and> nBlockSize (job_of (stream_information 2 (Some \<lparr>qb_bytes = replicate 40 0, qb_opens = True\<rparr>))) = 2 ^ nBlockShift (job_of (stream_information 2 (Some \<lparr>qb_bytes = replicate 40 0, qb_opens = True\<rparr>)))
   \<and> (\<exists>st'. writeBlocks (job_of (stream_information 2 (Some \<lparr>qb_bytes = replicate 40 0, qb_opens = True\<rparr>))) (ready_state (stream_information 2 (Some \<lparr>qb_bytes = replicate 40 0, qb_opens = True\<rparr>)))
              (replicate 8 7) 0 1 = Some st'
        \<and> qf_pos (pTargetFile st') = 0
        \<and> qf_writes (pTargetFile st') = [(0, replicate 8 7)]
        \<and> length (qf_bytes (pTargetFile st')) = 8)"
proof -
  let ?j = "job_of (stream_information 2 (Some \<lparr>qb_bytes = replicate 40 0, qb_opens = True\<rparr>))"
  let ?st = "ready_state (stream_information 2 (Some \<lparr>qb_bytes = replicate 40 0, qb_opens = True\<rparr>))"
  have sh: "nBlockShift ?j = 2"
    using block_shift_of_power[of 2] by (simp add: job_of_def stream_information_def)
  have j: "nBlockIdOffset ?j = 0" "nBlocks ?j = 2" "nBlockSize ?j = 4"
    by (simp_all add: job_of_def stream_information_def)
  have f: "pTargetFile ?st = \<lparr>qf_bytes = replicate 8 0, qf_pos = 0, qf_writes = []\<rparr>"
    by (simp add: ready_state_pTargetFile stream_information_def)
  show ?thesis
    using writeBlocks_effect[of ?j ?st 0 1 8 0 "replicate 8 7"] ready_state_hash_inv[of "stream_information 2 (Some \<lparr>qb_bytes = replicate 40 0, qb_opens = True\<rparr>)"]
    by (simp add: sh j f) blast
qed

theorem writeBlocks_length_counterexample:
  "nBlockSize (job_of ((stream_information 2 (Some \<lparr>qb_bytes = replicate 40 0, qb_opens = True\<rparr>))\<lparr>blockSize := 3\<rparr>)) = 3
   \<and> (\<exists>st'. writeBlocks (job_of ((stream_information 2 (Some \<lparr>qb_bytes = replicate 40 0, qb_opens = True\<rparr>))\<lparr>blockSize := 3\<rparr>))
               (ready_state ((stream_information 2 (Some \<lparr>qb_bytes = replicate 40 0, qb_opens = True\<rparr>))\<lparr>blockSize := 3\<rparr>)) [65, 66, 67] 0 0 = Some st'
        \<and> qf_writes (pTargetFile st') = [(0, [65, 66])]
        \<and> [65, 66] \<noteq> take ((0 - 0 + 1) * 3) [65, 66, 67 :: byte])"
proof -
  let ?i = "(stream_information 2 (Some \<lparr>qb_bytes = replicate 40 0, qb_opens = True\<rparr>))\<lparr>blockSize := 3\<rparr>"
  have sh: "nBlockShift (job_of ?i) = 1"
    using block_shift_of_3 by (simp add: job_of_def stream_information_def)
  have j: "nBlockIdOffset (job_of ?i) = 0" "nBlockSize (job_of ?i) = 3"
    by (simp_all add: job_of_def stream_information_def)
  have f: "pTargetFile (ready_state ?i) = \<lparr>qf_bytes = replicate 8 0, qf_pos = 0, qf_writes = []\<rparr>"
    by (simp add: ready_state_pTargetFile stream_information_def)
  show ?thesis
    using writeBlocks_effect_gen[OF ready_state_hash_inv[of ?i], of 0 0 2 0 "[65, 66, 67]"]
    by (simp add: sh j f) blast
qed

section \<open>Termination of the scan of a buffer\<close>

text \<open>
  C10. \<open>submitSourceData(data, len, offset)\<close> returns whenever the first window fits in
  the buffer, that is when the start \<open>x\<close> (0 for a new stream, the skip carried over
  otherwise) has \<open>x + context \<le> len\<close>: the loop needs at most \<open>len + 1\<close> iterations, and
  the walks along the hash chains inside it end. The state it leaves is again a state of a
  scan, and the skip it records is below the context. The job is well-formed and the state
  is one of a scan, as \<open>buildHash\<close> and the scan itself leave it.
\<close>

theorem submitSourceData_terminates:
  assumes "job_wf j" and "scan_inv j st" and "len \<le> length data"
    and "(if offset \<noteq> 0 then nSkip st else 0) + nContext j \<le> len"
  shows "\<exists>got st'. submitSourceData j st data len offset = Some (got, st')
           \<and> scan_inv j st' \<and> nSkip st' < nContext j"
  using submitSourceData_post[OF assms(1,2,3,4)] by blast

theorem submitSourceData_terminates_witness:
  "job_wf (job_of (stream_information 2 (Some \<lparr>qb_bytes = replicate 40 0, qb_opens = True\<rparr>)))
   \<and> scan_inv (job_of (stream_information 2 (Some \<lparr>qb_bytes = replicate 40 0, qb_opens = True\<rparr>)))
        (ready_state (stream_information 2 (Some \<lparr>qb_bytes = replicate 40 0, qb_opens = True\<rparr>)))
   \<and> (8::nat) \<le> length (replicate 8 (1::byte))
   \<and> 0 + nContext (job_of (stream_information 2 (Some \<lparr>qb_bytes = replicate 40 0, qb_opens = True\<rparr>))) \<le> 8
   \<and> (\<exists>got st'. submitSourceData
          (job_of (stream_information 2 (Some \<lparr>qb_bytes = replicate 40 0, qb_opens = True\<rparr>)))
          (ready_state (stream_information 2 (Some \<lparr>qb_bytes = replicate 40 0, qb_opens = True\<rparr>)))
          (replicate 8 1) 8 0 = Some (got, st'))"
proof -
  let ?i = "stream_information 2 (Some \<lparr>qb_bytes = replicate 40 0, qb_opens = True\<rparr>)"
  have wf: "job_wf (job_of ?i)"
    by (rule job_wf_of) (simp_all add: stream_information_def)
  have c: "nContext (job_of ?i) = 4" by (simp add: job_of_def stream_information_def)
  show ?thesis
    using submitSourceData_terminates[of "job_of ?i" "ready_state ?i" 8 "replicate 8 1" 0]
      wf ready_state_scan_inv[of ?i]
    by (simp add: c) blast
qed

section \<open>Parsing the checksum blocks of a target\<close>

lemma md4_length: "length (md4 m) = 16"
  by (simp add: md4_def md4_bytes32_def Let_def split: prod.splits)

lemma concat_take_drop:
  "(\<forall>x \<in> set xs. length x = n) \<Longrightarrow> i < length xs \<Longrightarrow> take n (drop (i * n) (concat xs)) = xs ! i"
proof (induction xs arbitrary: i)
  case Nil
  then show ?case by simp
next
  case (Cons x xs)
  show ?case
  proof (cases i)
    case 0
    then show ?thesis using Cons.prems by simp
  next
    case (Suc i')
    then have "take n (drop (i' * n) (concat xs)) = xs ! i'" using Cons by simp
    then show ?thesis using Suc Cons.prems by simp
  qed
qed

lemma concat_length_const:
  "(\<forall>x \<in> set xs. length x = n) \<Longrightarrow> length (concat xs) = length xs * n"
  by (induction xs) simp_all

lemma parse_blocks_records:
  assumes wb: "0 < nWeakCheckSumBytes j" and sb: "0 < nStrongCheckSumBytes j"
    and rl: "rl = nWeakCheckSumBytes j + nStrongCheckSumBytes j"
    and len: "nb * rl \<le> length bytes" and nb: "nb \<le> length bh0"
  shows "a \<le> nb \<Longrightarrow> length bh = length bh0 \<Longrightarrow> k = nb - a \<Longrightarrow>
     \<exists>bh'. parse_blocks j bytes [a..<nb] (a * rl) bh = (NO_ERROR, bh') \<and> length bh' = length bh
       \<and> (\<forall>i < length bh. bh' ! i =
             (if a \<le> i \<and> i < nb
              then parsed_entry j (take (nWeakCheckSumBytes j) (drop (i * rl) bytes))
                     (take (nStrongCheckSumBytes j) (drop (i * rl + nWeakCheckSumBytes j) bytes)) (bh ! i)
              else bh ! i))"
proof (induction k arbitrary: a bh)
  case 0
  then have "nb = a" by simp
  then show ?case by auto
next
  case (Suc k)
  then have a: "a < nb" by simp
  have up: "[a..<nb] = a # [Suc a..<nb]" using a by (simp add: upt_conv_Cons)
  define w where "w = take (nWeakCheckSumBytes j) (drop (a * rl) bytes)"
  define c where "c = take (nStrongCheckSumBytes j) (drop (a * rl + nWeakCheckSumBytes j) bytes)"
  have "Suc a * rl \<le> nb * rl" using a by (simp only: mult_le_mono1 Suc_leI)
  then have al: "a * rl + rl \<le> length bytes" using len by simp
  have lw: "length w = nWeakCheckSumBytes j" using al rl by (simp add: w_def)
  have lc: "length c = nStrongCheckSumBytes j" using al rl by (simp add: c_def)
  have r1: "qb_read bytes (a * rl) (nWeakCheckSumBytes j) = (w, a * rl + nWeakCheckSumBytes j)"
    by (simp add: qb_read_def Let_def w_def[symmetric] lw)
  have sa: "a * rl + nWeakCheckSumBytes j + nStrongCheckSumBytes j = Suc a * rl"
    using rl by simp
  have r2: "qb_read bytes (a * rl + nWeakCheckSumBytes j) (nStrongCheckSumBytes j) = (c, Suc a * rl)"
    unfolding qb_read_def Let_def c_def[symmetric] lc sa ..
  define bh1 where "bh1 = bh[a := parsed_entry j w c (bh ! a)]"
  have step: "parse_blocks j bytes [a..<nb] (a * rl) bh = parse_blocks j bytes [Suc a..<nb] (Suc a * rl) bh1"
  proof -
    have ne: "w \<noteq> []" "c \<noteq> []" using wb sb lw lc by auto
    show ?thesis unfolding up using ne lc
      by (simp add: r1 r2 Let_def bh1_def parsed_entry_def del: mult_Suc)
  qed
  have l1: "length bh1 = length bh0" using Suc.prems(2) by (simp add: bh1_def)
  have sa': "Suc a \<le> nb" "k = nb - Suc a" using a Suc.prems(3) by simp_all
  from Suc.IH[OF sa'(1) l1 sa'(2)]
  obtain bh' where p: "parse_blocks j bytes [Suc a..<nb] (Suc a * rl) bh1 = (NO_ERROR, bh')"
    and l': "length bh' = length bh1"
    and e': "\<forall>i < length bh1. bh' ! i =
             (if Suc a \<le> i \<and> i < nb
              then parsed_entry j (take (nWeakCheckSumBytes j) (drop (i * rl) bytes))
                     (take (nStrongCheckSumBytes j) (drop (i * rl + nWeakCheckSumBytes j) bytes)) (bh1 ! i)
              else bh1 ! i)"
    by blast
  have "\<forall>i < length bh. bh' ! i =
             (if a \<le> i \<and> i < nb
              then parsed_entry j (take (nWeakCheckSumBytes j) (drop (i * rl) bytes))
                     (take (nStrongCheckSumBytes j) (drop (i * rl + nWeakCheckSumBytes j) bytes)) (bh ! i)
              else bh ! i)"
  proof (intro allI impI)
    fix i assume i: "i < length bh"
    then have i1: "i < length bh1" by (simp add: bh1_def)
    show "bh' ! i =
             (if a \<le> i \<and> i < nb
              then parsed_entry j (take (nWeakCheckSumBytes j) (drop (i * rl) bytes))
                     (take (nStrongCheckSumBytes j) (drop (i * rl + nWeakCheckSumBytes j) bytes)) (bh ! i)
              else bh ! i)"
    proof (cases "i = a")
      case True
      then show ?thesis using e' i1 i a by (simp add: bh1_def w_def c_def)
    next
      case False
      then show ?thesis using e' i1 i by (auto simp add: bh1_def)
    qed
  qed
  then show ?case using step p l' l1 Suc.prems(2) by simp
qed

lemma be16_bytes: "be16 (ucast (drop_bit 8 a)) (ucast a) = (a :: 16 word)"
  unfolding be16_def
  by (rule bit_word_eqI) (auto simp add: bit_simps)

lemma take_of_record: "take a (drop p xs) = take a (take (a + b) (drop p xs))"
  by simp

lemma drop_of_record: "take b (drop (p + a) xs) = drop a (take (a + b) (drop p xs))"
  by (simp add: drop_take add.commute)

lemma checksum_record_length:
  "sb \<le> 16 \<Longrightarrow> length (checksum_record 4 sb blk) = 4 + sb"
  by (simp add: checksum_record_def Let_def md4_length)

lemma checksum_stream_record:
  assumes "sb \<le> 16" "i < nb"
  shows "take (4 + sb) (drop (i * (4 + sb)) (checksum_stream 4 sb bs nb target))
           = checksum_record 4 sb (target_block bs target i)"
proof -
  let ?xs = "map (\<lambda>i. checksum_record 4 sb (target_block bs target i)) [0..<nb]"
  have "\<forall>x \<in> set ?xs. length x = 4 + sb" using assms(1) by (auto simp: checksum_record_length)
  from concat_take_drop[OF this, of i] assms(2) show ?thesis
    by (simp add: checksum_stream_def)
qed

lemma checksum_stream_length:
  "sb \<le> 16 \<Longrightarrow> length (checksum_stream 4 sb bs nb target) = nb * (4 + sb)"
proof -
  assume a: "sb \<le> 16"
  let ?xs = "map (\<lambda>i. checksum_record 4 sb (target_block bs target i)) [0..<nb]"
  have "\<forall>x \<in> set ?xs. length x = 4 + sb" using a by (auto simp: checksum_record_length)
  from concat_length_const[OF this] show ?thesis by (simp add: checksum_stream_def)
qed

lemma parsed_entry_record:
  assumes "nWeakCheckSumBytes j = 4" "pWeakCheckSumMask j = 0xffff" "nStrongCheckSumBytes j = sb"
    "sb \<le> 16"
  shows "parsed_entry j (take 4 (checksum_record 4 sb blk)) (drop 4 (checksum_record 4 sb blk)) zero_entry
     = \<lparr>he_next = None, he_r = calc_rsum_block blk,
        he_checksum = take sb (md4 blk) @ replicate (16 - sb) 0\<rparr>"
proof -
  have m: "(0xffff :: 16 word) = - 1" by simp
  have "(a :: 16 word) AND 0xffff = a" for a unfolding m by (rule and.right_neutral)
  then show ?thesis
    using assms
    by (simp add: parsed_entry_def checksum_record_def rsum_field_def Let_def zero_entry_def
        be16_bytes CHECKSUM_SIZE_def md4_length)
qed

lemma job_of_example [simp]:
  "nBlockSize (job_of (example_information bs nb sq sb target seed)) = bs"
  "nBlockIdOffset (job_of (example_information bs nb sq sb target seed)) = 0"
  "nBlocks (job_of (example_information bs nb sq sb target seed)) = nb"
  "pWeakCheckSumMask (job_of (example_information bs nb sq sb target seed)) = 0xffff"
  "nWeakCheckSumBytes (job_of (example_information bs nb sq sb target seed)) = 4"
  "nStrongCheckSumBytes (job_of (example_information bs nb sq sb target seed)) = sb"
  "nSeqMatches (job_of (example_information bs nb sq sb target seed)) = sq"
  "nContext (job_of (example_information bs nb sq sb target seed)) = bs * sq"
  "nBlockShift (job_of (example_information bs nb sq sb target seed)) = block_shift_of bs"
  "pTargetFileCheckSumBlocks (job_of (example_information bs nb sq sb target seed))
     = Some \<lparr>qb_bytes = checksum_stream 4 sb bs nb target, qb_opens = True\<rparr>"
  "sSeedFilePath (job_of (example_information bs nb sq sb target seed))
     = \<lparr>sf_exists = True, sf_readable = True, sf_opens = True, sf_bytes = seed\<rparr>"
  by (simp_all add: job_of_def example_information_def)

lemma parse_example:
  assumes nb: "0 < nb" and sb: "0 < sb" "sb \<le> 16"
  shows "parseTargetFileCheckSumBlocks (job_of (example_information bs nb sq sb target seed))
           (init_state (example_information bs nb sq sb target seed))
         = (NO_ERROR, (init_state (example_information bs nb sq sb target seed))
                        \<lparr>pBlockHashes := target_entries bs nb sq sb target\<rparr>)"
proof -
  let ?info = "example_information bs nb sq sb target seed"
  let ?j = "job_of ?info"
  let ?bytes = "checksum_stream 4 sb bs nb target"
  let ?bh = "replicate (nb + sq) zero_entry"
  have bh: "pBlockHashes (init_state ?info) = ?bh"
    by (simp add: init_state_def example_information_def)
  have a: "0 < nWeakCheckSumBytes ?j" "0 < nStrongCheckSumBytes ?j"
     "4 + sb = nWeakCheckSumBytes ?j + nStrongCheckSumBytes ?j"
     "nb * (4 + sb) \<le> length ?bytes" "nb \<le> length ?bh"
    using sb by (simp_all add: checksum_stream_length)
  from parse_blocks_records[OF a, of 0 ?bh nb]
  obtain bh' where p: "parse_blocks ?j ?bytes [0..<nb] 0 ?bh = (NO_ERROR, bh')"
    and l: "length bh' = nb + sq"
    and e: "\<forall>i < nb + sq. bh' ! i =
             (if i < nb
              then parsed_entry ?j (take 4 (drop (i * (4 + sb)) ?bytes))
                     (take sb (drop (i * (4 + sb) + 4) ?bytes)) (?bh ! i)
              else ?bh ! i)"
    by auto
  have "bh' = target_entries bs nb sq sb target"
  proof (rule nth_equalityI)
    show "length bh' = length (target_entries bs nb sq sb target)"
      using l by (simp add: target_entries_def)
  next
    fix i assume "i < length bh'"
    then have i: "i < nb + sq" using l by simp
    show "bh' ! i = target_entries bs nb sq sb target ! i"
    proof (cases "i < nb")
      case True
      let ?r = "checksum_record 4 sb (target_block bs target i)"
      have r: "take (4 + sb) (drop (i * (4 + sb)) ?bytes) = ?r"
        using checksum_stream_record[OF sb(2) True] .
      have "take 4 (drop (i * (4 + sb)) ?bytes) = take 4 ?r"
        using take_of_record[of 4 "i * (4 + sb)" ?bytes sb] r by simp
      moreover have "take sb (drop (i * (4 + sb) + 4) ?bytes) = drop 4 ?r"
        using drop_of_record[of sb "i * (4 + sb)" 4 ?bytes] r by simp
      ultimately have "bh' ! i = parsed_entry ?j (take 4 ?r) (drop 4 ?r) zero_entry"
        using e i True by simp
      also have "\<dots> = \<lparr>he_next = None, he_r = calc_rsum_block (target_block bs target i),
        he_checksum = take sb (md4 (target_block bs target i)) @ replicate (16 - sb) 0\<rparr>"
        by (rule parsed_entry_record) (simp_all add: sb)
      finally show ?thesis using True by (simp add: target_entries_def nth_append)
    next
      case False
      then show ?thesis using e i by (simp add: target_entries_def nth_append)
    qed
  qed
  then have p': "parse_blocks ?j ?bytes [0..<nb] 0 ?bh = (NO_ERROR, target_entries bs nb sq sb target)"
    using p by simp
  have ln: "\<not> length ?bytes < 4 + sb"
  proof -
    have "1 * (4 + sb) \<le> nb * (4 + sb)" using nb by (intro mult_le_mono1) simp
    then show ?thesis using sb(2) by (simp add: checksum_stream_length)
  qed
  have rh: "pRsumHash (init_state ?info) = []" by (simp add: init_state_def)
  show ?thesis
    using ln by (simp add: parseTargetFileCheckSumBlocks_def bh p' rh)
qed

lemma upto_nat: "[0 .. int n] = map int [0..<Suc n]"
proof (induction n)
  case 0
  show ?case by (simp add: upto_rec1)
next
  case (Suc n)
  have "[0 .. int (Suc n)] = [0 .. int n] @ [int (Suc n)]"
    using upto_rec2[of 0 "int (Suc n)"] by simp
  then show ?case using Suc by simp
qed

lemma submitSourceFile_empty:
  "submitSourceFile j st [] = Some (0, if pRsumHash st = [] then snd (buildHash j st) else st)"
  by (simp add: submitSourceFile_def Let_def)

lemma getRequiredRanges_none_known:
  assumes "nRanges st = 0" and "0 < nBlocks j"
  shows "getRequiredRanges j st
     = Some [((nBlockIdOffset j, nBlockIdOffset j + int (nBlocks j)),
              map (\<lambda>i. take (nStrongCheckSumBytes j) (he_checksum (pBlockHashes st ! i)))
                  [0..<nBlocks j + 1])]"
proof -
  have ne: "(nBlockIdOffset j, int (nBlocks j) + nBlockIdOffset j) \<noteq> (0, 0)"
    using assms(2) by auto
  have m: "map (\<lambda>x. take (nStrongCheckSumBytes j) (he_checksum (pBlockHashes st ! nat x))) [0 .. int (nBlocks j)]
      = map (\<lambda>i. take (nStrongCheckSumBytes j) (he_checksum (pBlockHashes st ! i))) [0..<nBlocks j + 1]"
    by (simp add: upto_nat comp_def del: upt_Suc)
  show ?thesis
    using assms ne unfolding getRequiredRanges_def Let_def
    by (simp add: m add.commute del: upt_Suc)
qed

lemma target_entries_checksums:
  assumes "sb \<le> 16" "0 < sq"
  shows "map (\<lambda>i. take sb (he_checksum (target_entries bs nb sq sb target ! i))) [0..<nb + 1]
           = map (\<lambda>i. take sb (md4 (target_block bs target i))) [0..<nb] @ [replicate sb 0]"
proof -
  have a: "\<And>i. i < nb \<Longrightarrow> take sb (he_checksum (target_entries bs nb sq sb target ! i))
            = take sb (md4 (target_block bs target i))"
    using assms(1) by (simp add: target_entries_def nth_append md4_length)
  have b: "take sb (he_checksum (target_entries bs nb sq sb target ! nb)) = replicate sb 0"
    using assms by (simp add: target_entries_def nth_append zero_entry_def CHECKSUM_SIZE_def)
  have "[0..<nb + 1] = [0..<nb] @ [nb]" by simp
  then show ?thesis using a b by (simp del: upt_Suc)
qed

lemma operator_call_empty_seed:
  assumes nb: "0 < nb" and sb: "0 < sb" "sb \<le> 16" and sq: "0 < sq"
  shows "map_option fst (operator_call (example_information bs nb sq sb target []))
    = Some \<lparr>errorCode = NO_ERROR, gotBlocks = 0,
            requiredRanges = Some [((0, int nb),
               map (\<lambda>i. take sb (md4 (target_block bs target i))) [0..<nb] @ [replicate sb 0])]\<rparr>"
proof -
  let ?info = "example_information bs nb sq sb target []"
  let ?j = "job_of ?info"
  let ?st1 = "(init_state ?info)\<lparr>pBlockHashes := target_entries bs nb sq sb target\<rparr>"
  let ?st2 = "snd (buildHash ?j ?st1)"
  note p = parse_example[OF nb sb, of bs sq target "[]"]
  have o: "tryOpenSeedFile ?j = (NO_ERROR, [])" by (simp add: tryOpenSeedFile_def)
  have rh: "pRsumHash ?st1 = []" by (simp add: init_state_def)
  have s: "submitSourceFile ?j ?st1 [] = Some (0, ?st2)"
    using rh by (simp add: submitSourceFile_empty)
  have l: "length (pBlockHashes ?st1) = nBlocks ?j + nSeqMatches ?j"
    by (simp add: target_entries_def)
  have n: "\<forall>e < length (pBlockHashes ?st1). he_next (pBlockHashes ?st1 ! e) = None"
    by (auto simp add: target_entries_def nth_append zero_entry_def)
  have r: "pRover ?st1 = None" by (simp add: init_state_def)
  note bh = buildHash_hash_inv[OF l n r]
  have nr: "nRanges ?st2 = 0" by (simp add: buildHash_fields init_state_def)
  have l2: "length (pBlockHashes ?st2) = nb + sq"
    using hash_inv_length[OF bh(1)] by simp
  have cs: "\<And>i. i < nb + 1 \<Longrightarrow> he_checksum (pBlockHashes ?st2 ! i)
           = he_checksum (target_entries bs nb sq sb target ! i)"
  proof -
    fix i assume "i < nb + 1"
    then have "i < length (pBlockHashes ?st2)" using l2 sq by simp
    from map_eq_nthD[OF bh(3) this] show "he_checksum (pBlockHashes ?st2 ! i)
           = he_checksum (target_entries bs nb sq sb target ! i)" by simp
  qed
  have "map (\<lambda>i. take sb (he_checksum (pBlockHashes ?st2 ! i))) [0..<nb + 1]
      = map (\<lambda>i. take sb (he_checksum (target_entries bs nb sq sb target ! i))) [0..<nb + 1]"
    using cs by (intro map_cong) auto
  then have g: "getRequiredRanges ?j ?st2 = Some [((0, int nb),
               map (\<lambda>i. take sb (md4 (target_block bs target i))) [0..<nb] @ [replicate sb 0])]"
    using getRequiredRanges_none_known[of ?st2 ?j] nr nb target_entries_checksums[OF sb(2) sq, of bs nb target]
    by simp
  show ?thesis
    by (simp add: operator_call_def Let_def p o s g)
qed

section \<open>The required ranges when nothing is known\<close>

lemma take_map_upt_Suc: "take n (map f [0..<n + 1]) = map f [0..<n]"
  by (simp add: take_map)

lemma take_append_single: "length xs = n \<Longrightarrow> take n (xs @ [x]) = xs"
  by simp

text \<open>
  C3 (amended). With no known range and at least one block, \<open>getRequiredRanges\<close> reports
  one pair: its range is \<open>(block_id_offset, block_id_offset + blocks)\<close>, the second
  component being the id after the last block, and its checksum list starts with the first
  \<open>strong_bytes\<close> bytes of the checksum fields of the blocks \<open>0\<close> to \<open>blocks - 1\<close>, in
  this order. So a job for a target whose seed is empty returns \<open>got_blocks = 0\<close> and the
  one pair \<open>(0, blocks)\<close> whose list starts with the MD4 prefixes of the blocks; with four
  blocks of four bytes the range is \<open>(0, 4)\<close>.
\<close>

theorem required_ranges_nothing_known:
  "(nRanges st = 0 \<and> 0 < nBlocks j
      \<and> length (pBlockHashes st) = nBlocks j + nSeqMatches j \<longrightarrow>
      (\<exists>cs. getRequiredRanges j st
               = Some [((nBlockIdOffset j, nBlockIdOffset j + int (nBlocks j)), cs)]
            \<and> take (nBlocks j) cs
               = map (\<lambda>i. take (nStrongCheckSumBytes j) (he_checksum (pBlockHashes st ! i)))
                   [0..<nBlocks j]))
   \<and> (0 < nb \<and> 0 < sb \<and> sb \<le> 16 \<and> 0 < sq \<longrightarrow>
        (\<exists>res st' cs. operator_call (example_information bs nb sq sb target []) = Some (res, st')
            \<and> errorCode res = NO_ERROR \<and> gotBlocks res = 0
            \<and> requiredRanges res = Some [((0, int nb), cs)]
            \<and> take nb cs = map (\<lambda>i. take sb (md4 (target_block bs target i))) [0..<nb]))"
proof (intro conjI impI)
  assume a: "nRanges st = 0 \<and> 0 < nBlocks j
      \<and> length (pBlockHashes st) = nBlocks j + nSeqMatches j"
  then have "getRequiredRanges j st
     = Some [((nBlockIdOffset j, nBlockIdOffset j + int (nBlocks j)),
              map (\<lambda>i. take (nStrongCheckSumBytes j) (he_checksum (pBlockHashes st ! i)))
                  [0..<nBlocks j + 1])]"
    by (intro getRequiredRanges_none_known) simp_all
  then show "\<exists>cs. getRequiredRanges j st
               = Some [((nBlockIdOffset j, nBlockIdOffset j + int (nBlocks j)), cs)]
            \<and> take (nBlocks j) cs
               = map (\<lambda>i. take (nStrongCheckSumBytes j) (he_checksum (pBlockHashes st ! i)))
                   [0..<nBlocks j]"
    using take_map_upt_Suc[of "nBlocks j"
        "\<lambda>i. take (nStrongCheckSumBytes j) (he_checksum (pBlockHashes st ! i))"]
    by blast
next
  assume b: "0 < nb \<and> 0 < sb \<and> sb \<le> 16 \<and> 0 < sq"
  let ?cs = "map (\<lambda>i. take sb (md4 (target_block bs target i))) [0..<nb]"
  from b have "map_option fst (operator_call (example_information bs nb sq sb target []))
    = Some \<lparr>errorCode = NO_ERROR, gotBlocks = 0,
            requiredRanges = Some [((0, int nb), ?cs @ [replicate sb 0])]\<rparr>"
    by (intro operator_call_empty_seed) simp_all
  then obtain st' where
    "operator_call (example_information bs nb sq sb target [])
       = Some (\<lparr>errorCode = NO_ERROR, gotBlocks = 0,
                requiredRanges = Some [((0, int nb), ?cs @ [replicate sb 0])]\<rparr>, st')"
    by auto
  moreover have "take nb (?cs @ [replicate sb 0]) = ?cs"
    by (rule take_append_single) simp
  ultimately show "\<exists>res st' cs. operator_call (example_information bs nb sq sb target []) = Some (res, st')
            \<and> errorCode res = NO_ERROR \<and> gotBlocks res = 0
            \<and> requiredRanges res = Some [((0, int nb), cs)]
            \<and> take nb cs = map (\<lambda>i. take sb (md4 (target_block bs target i))) [0..<nb]"
    by (intro exI[of _ "\<lparr>errorCode = NO_ERROR, gotBlocks = 0,
                requiredRanges = Some [((0, int nb), ?cs @ [replicate sb 0])]\<rparr>"]
          exI[of _ st'] exI[of _ "?cs @ [replicate sb 0]"]) simp
qed

theorem required_ranges_nothing_known_witness:
  "nRanges (init_state (stream_information 4 None)) = 0
   \<and> 0 < nBlocks (job_of (stream_information 4 None))
   \<and> length (pBlockHashes (init_state (stream_information 4 None)))
       = nBlocks (job_of (stream_information 4 None)) + nSeqMatches (job_of (stream_information 4 None))
   \<and> (\<exists>cs. getRequiredRanges (job_of (stream_information 4 None))
               (init_state (stream_information 4 None)) = Some [((0, 4), cs)]
            \<and> take 4 cs
               = map (\<lambda>i. take 16 (he_checksum (pBlockHashes (init_state (stream_information 4 None)) ! i)))
                   [0..<4])
   \<and> (\<exists>res st' cs. operator_call (example_information 4 4 1 16
          [65, 66, 67, 68, 69, 70, 71, 72, 73, 74, 75, 76, 77, 78, 79, 80] []) = Some (res, st')
            \<and> errorCode res = NO_ERROR \<and> gotBlocks res = 0
            \<and> requiredRanges res = Some [((0, 4), cs)]
            \<and> take 4 cs = map (\<lambda>i. take 16 (md4 (target_block 4
                  [65, 66, 67, 68, 69, 70, 71, 72, 73, 74, 75, 76, 77, 78, 79, 80] i))) [0..<4])"
proof -
  have a: "nRanges (init_state (stream_information 4 None)) = 0"
    "nBlocks (job_of (stream_information 4 None)) = 4"
    "nSeqMatches (job_of (stream_information 4 None)) = 1"
    "length (pBlockHashes (init_state (stream_information 4 None))) = 5"
    "nBlockIdOffset (job_of (stream_information 4 None)) = 0"
    "nStrongCheckSumBytes (job_of (stream_information 4 None)) = 16"
    by (simp_all add: init_state_def job_of_def stream_information_def)
  show ?thesis
    using required_ranges_nothing_known[of "init_state (stream_information 4 None)"
        "job_of (stream_information 4 None)" 4 16 1 4
        "[65, 66, 67, 68, 69, 70, 71, 72, 73, 74, 75, 76, 77, 78, 79, 80]"]
    by (simp add: a del: upt_Suc)
qed

text \<open>
  For the job of the spec's example, four blocks of four bytes and an empty seed, the range
  reported is \<open>(0, 4)\<close> and not the inclusive \<open>(0, 3)\<close>.
\<close>

theorem required_ranges_inclusive_counterexample:
  "map_option (map_option (map fst) \<circ> requiredRanges \<circ> fst)
     (operator_call (example_information 4 4 1 16
          [65, 66, 67, 68, 69, 70, 71, 72, 73, 74, 75, 76, 77, 78, 79, 80] []))
     = Some (Some [(0, 4)])
   \<and> map_option (map_option (map fst) \<circ> requiredRanges \<circ> fst)
     (operator_call (example_information 4 4 1 16
          [65, 66, 67, 68, 69, 70, 71, 72, 73, 74, 75, 76, 77, 78, 79, 80] []))
     \<noteq> Some (Some [(0, 3)])"
proof -
  let ?call = "operator_call (example_information 4 4 1 16
          [65, 66, 67, 68, 69, 70, 71, 72, 73, 74, 75, 76, 77, 78, 79, 80] [])"
  have e: "map_option fst ?call
     = Some \<lparr>errorCode = NO_ERROR, gotBlocks = 0,
            requiredRanges = Some [((0, int 4),
               map (\<lambda>i. take 16 (md4 (target_block 4
                    [65, 66, 67, 68, 69, 70, 71, 72, 73, 74, 75, 76, 77, 78, 79, 80] i))) [0..<4]
                 @ [replicate 16 0])]\<rparr>"
    by (rule operator_call_empty_seed) simp_all
  have "map_option (map_option (map fst) \<circ> requiredRanges \<circ> fst) ?call
      = map_option (map_option (map fst) \<circ> requiredRanges) (map_option fst ?call)"
    by (simp add: option.map_comp comp_assoc)
  also have "\<dots> = Some (Some [(0, 4)])"
    by (simp only: e option.map comp_apply Result.simps list.map fst_conv) simp
  finally have f: "map_option (map_option (map fst) \<circ> requiredRanges \<circ> fst) ?call
      = Some (Some [(0, 4)])" .
  show ?thesis unfolding f by simp
qed

section \<open>Every write passed the strong check\<close>





lemma abc_job_fields [simp]:
  "nBlockSize abc_job = 3" "nBlockIdOffset abc_job = 0" "nBlocks abc_job = Suc 0"
  "pWeakCheckSumMask abc_job = 0xffff" "nStrongCheckSumBytes abc_job = 16"
  "nSeqMatches abc_job = Suc 0" "nContext abc_job = 3" "nBlockShift abc_job = Suc 0"
  by (simp_all add: abc_job_def block_shift_of_3)





















section \<open>Scanning a seed shorter than the context\<close>

lemma quiet_refl [simp]: "quiet st st"
  by (simp add: quiet_def)


lemma quiet_fields [simp]:
  "quiet st (st'\<lparr>pRover := rv\<rparr>) = quiet st st'"
  "quiet st (st'\<lparr>pNextMatch := nm\<rparr>) = quiet st st'"
  "quiet st (st'\<lparr>nSkip := sk\<rparr>) = quiet st st'"
  "quiet st (st'\<lparr>pCurrentWeakCheckSums := c\<rparr>) = quiet st st'"
  by (simp_all add: quiet_def)




lemma next_match_None_id: "pNextMatch st = None \<Longrightarrow> st\<lparr>pNextMatch := None\<rparr> = st"
  by (cases st) simp












lemma block_shift_of_4: "block_shift_of 4 = 2"
  using block_shift_of_power[of 2] by simp

lemma pad_job_fields [simp]:
  "nBlockSize pad_job = 4" "nBlockIdOffset pad_job = 0" "nBlocks pad_job = Suc 0"
  "pWeakCheckSumMask pad_job = 0xffff" "nStrongCheckSumBytes pad_job = 16"
  "nSeqMatches pad_job = Suc 0" "nContext pad_job = 4" "nBlockShift pad_job = 2"
  by (simp_all add: pad_job_def block_shift_of_4)




















end
